theory Spec2Isabelle
  imports Main "HOL-Library.Word" "HOL-Library.Sublist"
begin

section \<open>JavaScript values\<close>

text \<open>
  A JavaScript string is a sequence of UTF-16 code units; a regular expression without
  the \<open>u\<close> flag matches one code unit at a time. \<open>js\<close> embeds an ASCII literal.
\<close>

type_synonym js_string = "16 word list"

definition js :: "string \<Rightarrow> js_string" where
  "js s = map (\<lambda>c. of_nat (of_char c)) s"

text \<open>
  The values that cross the pipe (what \<open>marshal.loads\<close> hands to the controller and what
  exported functions receive and return). None of them is a function. \<open>VNum n\<close> is the
  number nearest to the integer \<open>n\<close>; other numbers are not modelled. \<open>VObj kvs\<close> is an
  object with the own properties \<open>kvs\<close> (the first pair of a key counts) whose prototype
  is \<open>Object.prototype\<close>, \<open>VNullProto kvs\<close> one whose prototype is \<open>null\<close>, as a plain
  object is after \<open>o.__proto__ = null\<close>; objects with other prototypes are not modelled.
  \<open>VBoxed\<close> is the wrapper object that \<open>Object(v)\<close> makes of a primitive.
\<close>

datatype jsval =
    VUndefined
  | VNull
  | VBool bool
  | VNum int
  | VStr js_string
  | VArr "jsval list"
  | VObj "(js_string \<times> jsval) list"
  | VNullProto "(js_string \<times> jsval) list"
  | VBoxed jsval

definition digit :: "nat \<Rightarrow> 16 word" where
  "digit d = of_nat (48 + d)"

function dec_nat :: "nat \<Rightarrow> js_string" where
  "dec_nat n = (if n < 10 then [digit n] else dec_nat (n div 10) @ [digit (n mod 10)])"
  by pat_completeness auto
termination
  by (relation "measure id") auto

declare dec_nat.simps [simp del]

text \<open>The decimal digits of an integer that is not negative, and the number of its
  digits in base \<open>b\<close>.\<close>

function dec :: "int \<Rightarrow> js_string" where
  "dec n = (if n < 10 then [digit (nat n)] else dec (n div 10) @ [digit (nat (n mod 10))])"
  by pat_completeness auto
termination
  by (relation "measure nat") auto

declare dec.simps [simp del]

function width :: "int \<Rightarrow> int \<Rightarrow> nat" where
  "width b n = (if n \<le> 0 \<or> b < 2 then 0 else Suc (width b (n div b)))"
  by pat_completeness auto
termination
proof (relation "measure (\<lambda>x. nat (snd x))")
  show "wf (measure (\<lambda>x. nat (snd x)))" by simp
next
  fix b n :: int
  assume "\<not> (n \<le> 0 \<or> b < 2)"
  then have "n div b < n" by (simp add: int_div_less_self)
  then show "((b, n div b), (b, n)) \<in> measure (\<lambda>x. nat (snd x))"
    using \<open>\<not> (n \<le> 0 \<or> b < 2)\<close> by simp
qed

declare width.simps [simp del]

text \<open>
  A number is an IEEE 754 double, with 53 bits of mantissa: \<open>number m\<close> is the double
  nearest to \<open>m\<close>, the one with the even mantissa when two are equally near.
\<close>

definition number :: "int \<Rightarrow> int" where
  "number m =
     (let e = width 2 m in
      if e \<le> 53 then m
      else
        let u = 2 ^ (e - 53); q = m div u; r = m mod u
        in if 2 * r < u \<or> (2 * r = u \<and> even q) then q * u else (q + 1) * u)"

text \<open>
  \<open>Number::toString\<close> prints the decimal with the fewest significant digits that is read
  back as the same number, and of several such the nearest. \<open>shortest x j\<close> looks for it
  among the multiples of \<open>10 ^ j\<close>, then of \<open>10 ^ (j - 1)\<close>, and so on. Below \<open>10 ^ 21\<close>
  the decimal is printed in full, from there on as \<open>d.ddde+n\<close>; a number beyond the
  doubles is \<open>Infinity\<close>. Every integer below \<open>2 ^ 53\<close> is a double and its own shortest
  decimal.
\<close>

primrec shortest :: "int \<Rightarrow> nat \<Rightarrow> int" where
  "shortest x 0 = x"
| "shortest x (Suc j) =
     (let p = 10 ^ Suc j; lo = (x div p) * p; hi = lo + p in
      if number lo = x \<and> number hi = x
      then (if x - lo < hi - x \<or> (x - lo = hi - x \<and> even (x div p)) then lo else hi)
      else if number lo = x then lo
      else if number hi = x then hi
      else shortest x j)"

definition exponent_form :: "int \<Rightarrow> js_string" where
  "exponent_form v =
     (let ds = dec v;
          s = rev (dropWhile (\<lambda>c. c = digit 0) (rev ds))
      in (if length s = 1 then s else hd s # js ''.'' @ tl s) @ js ''e+'' @ dec_nat (length ds - 1))"

definition magnitude_toString :: "int \<Rightarrow> js_string" where
  "magnitude_toString m =
     (if m < 2 ^ 53 then dec m
      else
        let x = number m in
        if 2 ^ 1024 \<le> x then js ''Infinity''
        else
          let v = shortest x (width 10 x - 1)
          in if v < 10 ^ 21 then dec v else exponent_form v)"

definition Number_toString :: "int \<Rightarrow> js_string" where
  "Number_toString i =
     (if i < 0 then js ''-'' @ magnitude_toString (- i) else magnitude_toString i)"

fun join_comma :: "js_string list \<Rightarrow> js_string" where
  "join_comma [] = []"
| "join_comma [s] = s"
| "join_comma (s # t) = s @ js '','' @ join_comma t"

text \<open>
  \<open>ToString\<close>, as a template literal, string concatenation and property access apply it
  to a value; \<open>None\<close> is the TypeError "Cannot convert object to primitive value". An
  array prints its elements joined by commas, with \<open>null\<close> and \<open>undefined\<close> elements
  printed empty. An object is printed by the \<open>toString\<close> it has: an own property of that
  name is not a function and hides the inherited one, and an object without prototype
  inherits none; \<open>valueOf\<close>, tried next, is not a function either or returns the object.
\<close>

fun js_toString :: "jsval \<Rightarrow> js_string option" where
  "js_toString VUndefined = Some (js ''undefined'')"
| "js_toString VNull = Some (js ''null'')"
| "js_toString (VBool b) = Some (if b then js ''true'' else js ''false'')"
| "js_toString (VNum n) = Some (Number_toString n)"
| "js_toString (VStr s) = Some s"
| "js_toString (VArr xs) =
     map_option join_comma
       (those (map (\<lambda>x. if x = VUndefined \<or> x = VNull then Some [] else js_toString x) xs))"
| "js_toString (VObj kvs) =
     (if map_of kvs (js ''toString'') = None then Some (js ''[object Object]'') else None)"
| "js_toString (VNullProto kvs) = None"
| "js_toString (VBoxed v) = js_toString v"

definition cannot_convert_to_primitive :: js_string where
  "cannot_convert_to_primitive = js ''Cannot convert object to primitive value''"

text \<open>
  \<open>value[i]\<close>: reading a property of \<open>null\<close> or \<open>undefined\<close> throws a TypeError
  (\<open>None\<close>); an index beyond the end, or of a number or boolean, reads \<open>undefined\<close>.
\<close>

fun js_index :: "jsval \<Rightarrow> nat \<Rightarrow> jsval option" where
  "js_index VUndefined i = None"
| "js_index VNull i = None"
| "js_index (VBool b) i = Some VUndefined"
| "js_index (VNum n) i = Some VUndefined"
| "js_index (VStr s) i = Some (if i < length s then VStr [s ! i] else VUndefined)"
| "js_index (VArr xs) i = Some (if i < length xs then xs ! i else VUndefined)"
| "js_index (VObj kvs) i =
     Some (case map_of kvs (dec_nat i) of Some v \<Rightarrow> v | None \<Rightarrow> VUndefined)"
| "js_index (VNullProto kvs) i =
     Some (case map_of kvs (dec_nat i) of Some v \<Rightarrow> v | None \<Rightarrow> VUndefined)"
| "js_index (VBoxed v) i = js_index v i"

fun isArray :: "jsval \<Rightarrow> bool" where
  "isArray (VArr xs) = True"
| "isArray v = False"

fun elements :: "jsval \<Rightarrow> jsval list" where
  "elements (VArr xs) = xs"
| "elements v = []"

text \<open>\<open>Object(v)\<close>, the function every object inherits as \<open>constructor\<close>.\<close>

fun js_Object :: "jsval list \<Rightarrow> jsval" where
  "js_Object [] = VObj []"
| "js_Object (VUndefined # _) = VObj []"
| "js_Object (VNull # _) = VObj []"
| "js_Object (VArr xs # _) = VArr xs"
| "js_Object (VObj kvs # _) = VObj kvs"
| "js_Object (VNullProto kvs # _) = VNullProto kvs"
| "js_Object (VBoxed v # _) = VBoxed v"
| "js_Object (v # _) = VBoxed v"

section \<open>Protocol constants and errors\<close>

text \<open>
  Modelled from the spec: \<open>sandboxUtil.CALL\<close>, \<open>sandboxUtil.DATA\<close> and
  \<open>sandboxUtil.EXC\<close> are declared outside the source file; the spec calls them three
  sentinel scalar values and the source's type \<open>MsgCode = null | true | false\<close> names the
  scalars. The class \<open>sandboxUtil.SandboxError\<close> is declared there as well; the spec has
  a call fail "with payload as the error description", so an error of that class is
  given by the value it is constructed from.
\<close>

definition CALL :: jsval where "CALL = VNull"
definition DATA :: jsval where "DATA = VBool True"
definition EXC :: jsval where "EXC = VBool False"

text \<open>
  What is thrown: an error with its message, and \<open>CannotRead k\<close>, the TypeError for
  reading the property \<open>k\<close> of \<open>null\<close> or \<open>undefined\<close>, whose message differs from
  one version of the engine to the next and is only ever logged.
\<close>

datatype thrown =
    SandboxError jsval
  | Error js_string
  | TypeError js_string
  | CannotRead js_string

datatype outcome = Resolve jsval | Reject thrown

text \<open>
  An exported function returns a value, throws, or returns a promise that settles later
  (\<open>Awaits k\<close>). Of a thrown value the controller only reads \<open>err.toString()\<close>:
  \<open>Throws (Some s)\<close> carries that string, \<open>Throws None\<close> is a thrown \<open>null\<close> or
  \<open>undefined\<close>, which has no \<open>toString\<close>.
\<close>

datatype method_result = Returns jsval | Throws "js_string option" | Awaits nat

type_synonym SandboxMethod = "jsval list \<Rightarrow> method_result"

datatype property = Absent | Function SandboxMethod | NonCallable

text \<open>
  \<open>this._exportedFunctions\<close> is \<open>options.exports || {}\<close>, an ordinary object, and
  \<open>this._exportedFunctions[fname]\<close> reads its own properties first and then those of
  \<open>Object.prototype\<close>. The inherited functions are called as \<open>func(...args)\<close>, with
  \<open>this\<close> undefined: \<open>constructor\<close> and \<open>toString\<close> return all the same and the
  others throw a TypeError, \<open>isPrototypeOf\<close> only when its argument is an object;
  \<open>hasOwnProperty\<close> and \<open>propertyIsEnumerable\<close> convert their argument to a property
  key first. The wording of these TypeErrors is that of V8, the engine of Node.
\<close>

definition cannot_convert :: method_result where
  "cannot_convert = Throws (Some (js ''TypeError: Cannot convert undefined or null to object''))"

fun isPrototypeOf :: SandboxMethod where
  "isPrototypeOf (VArr xs # _) = cannot_convert"
| "isPrototypeOf (VObj kvs # _) = cannot_convert"
| "isPrototypeOf (VNullProto kvs # _) = cannot_convert"
| "isPrototypeOf (VBoxed v # _) = cannot_convert"
| "isPrototypeOf _ = Returns (VBool False)"

definition key_first :: SandboxMethod where
  "key_first args =
     (case js_toString (case args of [] \<Rightarrow> VUndefined | v # _ \<Rightarrow> v) of
        None \<Rightarrow> Throws (Some (js ''TypeError: '' @ cannot_convert_to_primitive))
      | Some key \<Rightarrow> cannot_convert)"

definition Object_prototype :: "js_string \<Rightarrow> property" where
  "Object_prototype k =
    (if k = js ''constructor'' then Function (\<lambda>args. Returns (js_Object args))
     else if k = js ''toString'' then Function (\<lambda>args. Returns (VStr (js ''[object Undefined]'')))
     else if k = js ''isPrototypeOf'' then Function isPrototypeOf
     else if k = js ''toLocaleString'' then
       Function (\<lambda>args. Throws (Some
         (js ''TypeError: Object.prototype.toLocaleString called on null or undefined'')))
     else if k = js ''hasOwnProperty'' \<or> k = js ''propertyIsEnumerable'' then Function key_first
     else if k \<in> set (map js [''valueOf'', ''__defineGetter__'', ''__defineSetter__'',
         ''__lookupGetter__'', ''__lookupSetter__'']) then Function (\<lambda>args. cannot_convert)
     else if k = js ''__proto__'' then NonCallable
     else Absent)"

definition get_property :: "(js_string \<rightharpoonup> SandboxMethod) \<Rightarrow> js_string \<Rightarrow> property" where
  "get_property obj k = (case obj k of Some f \<Rightarrow> Function f | None \<Rightarrow> Object_prototype k)"

section \<open>The controller's state\<close>

datatype log_entry =
    Sandbox_started
  | Sandbox_error_reading js_string
  | Sandbox_error_writing js_string
  | Recording_sandbox_buffers
  | Sandbox_shutdown_starting
  | Sandbox_sending_SIGKILL
  | Sandbox_pyCall_took js_string
  | Sandbox_exited jsval jsval
  | Sandbox_could_not_be_spawned js_string
  | Sandbox_invalid_call
  | Sandbox_got_call js_string nat
  | Sandbox_sending_response_failed thrown
  | Sandbox_invalid_message

text \<open>What an \<open>await\<close> resumes: \<open>_pyCallWait\<close> with its function name, or \<open>shutdown\<close>
  with its kill timer.\<close>

datatype awaiter = PyCallWait js_string | ShutdownWait nat

text \<open>
  The promise jobs the file creates: the three stages of the chain that answers an inbound
  call (\<open>.then(lookup and call).then(send DATA, send EXC).catch(log)\<close>) and the
  continuation of an \<open>await\<close>.
\<close>

datatype microtask =
    ExportLookup jsval "jsval list"
  | ExportRespond "js_string option + jsval"
  | ExportCatch thrown
  | Resume nat

text \<open>
  The fields of the class, followed by what it acts on: the outbound stream (frames written,
  calls of \<open>end()\<close>), the recording files, the log, the promises (\<open>settled\<close> lists every
  call of a \<open>resolve\<close> or \<open>reject\<close> function in order, so the first entry of a promise
  is its state; \<open>returned\<close> lists the results of the async functions \<open>_pyCallWait\<close> and
  \<open>shutdown\<close>), the job queue, the kill timers with their delay, the calls of
  \<open>childProc.kill('SIGKILL')\<close>, the promises whose \<open>resolve\<close> and \<open>reject\<close> listen on
  \<open>childProc\<close>, the exported calls still running, and the exceptions no handler caught.
  A promise is named by a number; \<open>_pendingReads\<close> holds the numbers of its
  \<open>[resolve, reject]\<close> pairs. \<open>throttle = Some n\<close> is a throttle whose \<open>stop()\<close> was
  called \<open>n\<close> times.
\<close>

record nsandbox =
  logTimes :: bool
  exportedFunctions :: "js_string \<rightharpoonup> SandboxMethod"
  pendingReads :: "nat list"
  isReadClosed :: bool
  isWriteClosed :: bool
  throttle :: "nat option"
  recordBuffers :: bool
  written :: "(jsval \<times> jsval) list"
  ended :: nat
  recordedInput :: "(jsval \<times> jsval) list"
  recordedOutput :: "jsval list"
  logs :: "log_entry list"
  settled :: "(nat \<times> outcome) list"
  awaiting :: "(nat \<times> awaiter) list"
  returned :: "(nat \<times> outcome) list"
  nextPromise :: nat
  microtasks :: "microtask list"
  timers :: "(nat \<times> nat) list"
  nextTimer :: nat
  kills :: nat
  childListeners :: "nat list"
  exportsRunning :: "nat list"
  uncaught :: "thrown list"

definition log :: "log_entry \<Rightarrow> nsandbox \<Rightarrow> nsandbox" where
  "log e st = st\<lparr>logs := logs st @ [e]\<rparr>"

definition enqueue :: "microtask \<Rightarrow> nsandbox \<Rightarrow> nsandbox" where
  "enqueue t st = st\<lparr>microtasks := microtasks st @ [t]\<rparr>"

text \<open>
  A call of a promise's \<open>resolve\<close> or \<open>reject\<close>. It is recorded; it settles the promise
  only when the promise is still pending, and then the function awaiting it is resumed by
  a job.
\<close>

definition settle :: "nat \<Rightarrow> outcome \<Rightarrow> nsandbox \<Rightarrow> nsandbox" where
  "settle p out st =
     (let st1 = st\<lparr>settled := settled st @ [(p, out)]\<rparr> in
      if map_of (settled st) p = None \<and> map_of (awaiting st) p \<noteq> None
      then enqueue (Resume p) st1 else st1)"

text \<open>\<open>await\<close> of promise \<open>p\<close>: resumed by a job at once when \<open>p\<close> is already settled.\<close>

definition await :: "nat \<Rightarrow> awaiter \<Rightarrow> nsandbox \<Rightarrow> nsandbox" where
  "await p a st =
     (let st1 = st\<lparr>awaiting := awaiting st @ [(p, a)]\<rparr> in
      if map_of (settled st) p = None then st1 else enqueue (Resume p) st1)"

definition stopThrottle :: "nsandbox \<Rightarrow> nsandbox" where
  "stopThrottle st = (case throttle st of None \<Rightarrow> st | Some n \<Rightarrow> st\<lparr>throttle := Some (Suc n)\<rparr>)"

section \<open>The methods of NSandbox\<close>

text \<open>
  \<open>_streamToSandbox.write(buf)\<close>: a write after \<open>end()\<close> writes nothing and makes the
  stream emit an error, which the stream's error listener passes over because
  \<open>_isWriteClosed\<close> is set by then.
\<close>

definition streamWrite :: "jsval \<times> jsval \<Rightarrow> nsandbox \<Rightarrow> nsandbox" where
  "streamWrite frame st = (if ended st = 0 then st\<lparr>written := written st @ [frame]\<rparr> else st)"

text \<open>\<open>_sendData\<close>: the thrown error, if any, and the state. The marshaller encodes
  every value.\<close>

definition sendData :: "nsandbox \<Rightarrow> jsval \<Rightarrow> jsval \<Rightarrow> thrown option \<times> nsandbox" where
  "sendData st msgCode data =
     (if isReadClosed st then (Some (SandboxError (VStr (js ''PipeToSandbox is closed''))), st)
      else
        let st1 = (if recordBuffers st
                   then st\<lparr>recordedInput := recordedInput st @ [(msgCode, data)]\<rparr> else st)
        in (None, streamWrite (msgCode, data) st1))"

text \<open>\<open>_pyCallWait\<close> up to its \<open>await\<close>: the new promise's pair is pushed.\<close>

definition pyCallWait :: "nsandbox \<Rightarrow> js_string \<Rightarrow> nat \<times> nsandbox" where
  "pyCallWait st funcName =
     (let p = nextPromise st;
          st1 = st\<lparr>nextPromise := Suc p\<rparr>;
          st2 = st1\<lparr>pendingReads := pendingReads st1 @ [p]\<rparr>
      in (p, await p (PyCallWait funcName) st2))"

text \<open>\<open>pyCall\<close>: \<open>Inl\<close> is the error thrown to the caller, \<open>Inr\<close> the promise returned.\<close>

definition pyCall :: "nsandbox \<Rightarrow> js_string \<Rightarrow> jsval list \<Rightarrow> (thrown + nat) \<times> nsandbox" where
  "pyCall st funcName varArgs =
     (case sendData st CALL (VArr (VStr funcName # varArgs)) of
        (Some e, st1) \<Rightarrow> (Inl e, st1)
      | (None, st1) \<Rightarrow> (case pyCallWait st1 funcName of (p, st2) \<Rightarrow> (Inr p, st2)))"

definition close :: "nsandbox \<Rightarrow> nsandbox" where
  "close st =
     (let st1 = stopThrottle st in
      if \<not> isWriteClosed st1 then st1\<lparr>ended := Suc (ended st1), isWriteClosed := True\<rparr>
      else st1)"

definition onExit :: "nsandbox \<Rightarrow> jsval \<Rightarrow> jsval \<Rightarrow> nsandbox" where
  "onExit st code signal = log (Sandbox_exited code signal) (close st)"

definition onError :: "nsandbox \<Rightarrow> js_string \<Rightarrow> nsandbox" where
  "onError st err = log (Sandbox_could_not_be_spawned err) (close st)"

definition onSandboxClose :: "nsandbox \<Rightarrow> nsandbox" where
  "onSandboxClose st =
     (let st1 = stopThrottle st;
          st2 = st1\<lparr>isReadClosed := True\<rparr>;
          err = SandboxError (VStr (js ''PipeFromSandbox is closed''));
          st3 = foldl (\<lambda>s resolvePair. settle resolvePair (Reject err) s) st2 (pendingReads st2)
      in st3\<lparr>pendingReads := []\<rparr>)"

text \<open>
  \<open>_onSandboxMsg\<close>: the error thrown, if any, and the state. The message logged for a
  call is built from \<open>fname\<close> before the chain of promises is made, so a name that cannot
  be converted to a string throws here, before anything is logged or queued.
\<close>

definition onSandboxMsg :: "nsandbox \<Rightarrow> jsval \<Rightarrow> jsval \<Rightarrow> thrown option \<times> nsandbox" where
  "onSandboxMsg st msgCode data =
     (if msgCode = CALL then
        if \<not> isArray data \<or> length (elements data) = 0 then (None, log Sandbox_invalid_call st)
        else
          let fname = hd (elements data);
              args = tl (elements data)
          in case js_toString fname of
               None \<Rightarrow> (Some (TypeError cannot_convert_to_primitive), st)
             | Some name \<Rightarrow>
                 let st1 = log (Sandbox_got_call name (length args)) st
                 in (None, enqueue (ExportLookup fname args) st1)
      else
        (None,
         case pendingReads st of
           [] \<Rightarrow> st
         | resolvePair # rest \<Rightarrow>
             let st1 = st\<lparr>pendingReads := rest\<rparr> in
             if msgCode = EXC then settle resolvePair (Reject (SandboxError data)) st1
             else if msgCode = DATA then settle resolvePair (Resolve data) st1
             else log Sandbox_invalid_message st1))"

text \<open>
  \<open>_onSandboxData\<close>, given the values the unmarshaller decodes from one chunk of bytes.
  \<open>value[0]\<close> of a decoded \<open>null\<close> throws out of the listener, and so does what
  \<open>_onSandboxMsg\<close> throws; the rest of the chunk is then not processed.
\<close>

fun onSandboxData :: "nsandbox \<Rightarrow> jsval list \<Rightarrow> nsandbox" where
  "onSandboxData st [] = st"
| "onSandboxData st (v # vs) =
     (let st1 = (if recordBuffers st then st\<lparr>recordedOutput := recordedOutput st @ [v]\<rparr> else st)
      in case (js_index v 0, js_index v 1) of
           (Some msgCode, Some data) \<Rightarrow>
             (case onSandboxMsg st1 msgCode data of
                (None, st2) \<Rightarrow> onSandboxData st2 vs
              | (Some e, st2) \<Rightarrow> st2\<lparr>uncaught := uncaught st2 @ [e]\<rparr>)
         | _ \<Rightarrow> st1\<lparr>uncaught := uncaught st1 @
                  [CannotRead (js ''0'')]\<rparr>)"


section \<open>Promise jobs\<close>

definition setTimeout :: "nat \<Rightarrow> nsandbox \<Rightarrow> nat \<times> nsandbox" where
  "setTimeout delay st =
     (nextTimer st,
      st\<lparr>timers := timers st @ [(nextTimer st, delay)], nextTimer := Suc (nextTimer st)\<rparr>)"

definition clearTimeout :: "nat \<Rightarrow> nsandbox \<Rightarrow> nsandbox" where
  "clearTimeout timeoutID st = st\<lparr>timers := filter (\<lambda>t. fst t \<noteq> timeoutID) (timers st)\<rparr>"

text \<open>
  The code after an \<open>await\<close>. \<open>_pyCallWait\<close> logs the time taken (when asked to) and
  hands the outcome on. \<open>shutdown\<close> clears its kill timer and returns the result; when
  the awaited promise was rejected the \<open>await\<close> throws and \<open>clearTimeout\<close> is not reached.
\<close>

definition resume :: "nat \<Rightarrow> nsandbox \<Rightarrow> nsandbox" where
  "resume p st =
     (case (map_of (awaiting st) p, map_of (settled st) p) of
        (Some (PyCallWait funcName), Some out) \<Rightarrow>
          let st1 = (if logTimes st then log (Sandbox_pyCall_took funcName) st else st)
          in st1\<lparr>returned := returned st1 @ [(p, out)]\<rparr>
      | (Some (ShutdownWait timeoutID), Some (Resolve result)) \<Rightarrow>
          let st1 = clearTimeout timeoutID st
          in st1\<lparr>returned := returned st1 @ [(p, Resolve result)]\<rparr>
      | (Some (ShutdownWait timeoutID), Some (Reject e)) \<Rightarrow>
          st\<lparr>returned := returned st @ [(p, Reject e)]\<rparr>
      | _ \<Rightarrow> st)"

text \<open>
  The first stage of the chain of \<open>_onSandboxMsg\<close>: look the function up and call it.
  Here a name that cannot be converted to a property key rejects the promise of the stage.
\<close>

definition exportLookup :: "jsval \<Rightarrow> jsval list \<Rightarrow> nsandbox \<Rightarrow> nsandbox" where
  "exportLookup fname args st =
     (case js_toString fname of
        None \<Rightarrow>
          enqueue (ExportRespond (Inl (Some (js ''TypeError: '' @ cannot_convert_to_primitive)))) st
      | Some name \<Rightarrow>
          (case get_property (exportedFunctions st) name of
             Absent \<Rightarrow>
               enqueue (ExportRespond (Inl (Some
                 (js ''Error: No such exported function: '' @ name)))) st
           | NonCallable \<Rightarrow>
               enqueue (ExportRespond (Inl (Some (js ''TypeError: func is not a function'')))) st
           | Function func \<Rightarrow>
               (case func args of
                  Returns ret \<Rightarrow> enqueue (ExportRespond (Inr ret)) st
                | Throws err \<Rightarrow> enqueue (ExportRespond (Inl err)) st
                | Awaits k \<Rightarrow> st\<lparr>exportsRunning := exportsRunning st @ [k]\<rparr>)))"

text \<open>The second stage: send DATA with the value, or EXC with \<open>err.toString()\<close>; what
  either throws goes to the third stage.\<close>

definition exportRespond :: "js_string option + jsval \<Rightarrow> nsandbox \<Rightarrow> nsandbox" where
  "exportRespond r st =
     (case r of
        Inr ret \<Rightarrow>
          (case sendData st DATA ret of
             (None, st1) \<Rightarrow> st1
           | (Some e, st1) \<Rightarrow> enqueue (ExportCatch e) st1)
      | Inl (Some errString) \<Rightarrow>
          (case sendData st EXC (VStr errString) of
             (None, st1) \<Rightarrow> st1
           | (Some e, st1) \<Rightarrow> enqueue (ExportCatch e) st1)
      | Inl None \<Rightarrow>
          enqueue (ExportCatch (CannotRead (js ''toString''))) st)"

fun runTask :: "microtask \<Rightarrow> nsandbox \<Rightarrow> nsandbox" where
  "runTask (ExportLookup fname args) st = exportLookup fname args st"
| "runTask (ExportRespond r) st = exportRespond r st"
| "runTask (ExportCatch err) st = log (Sandbox_sending_response_failed err) st"
| "runTask (Resume p) st = resume p st"

fun weight :: "microtask \<Rightarrow> nat" where
  "weight (ExportLookup fname args) = 3"
| "weight (ExportRespond r) = 2"
| "weight (ExportCatch err) = 1"
| "weight (Resume p) = 1"

definition work :: "nsandbox \<Rightarrow> nat" where
  "work st = sum_list (map weight (microtasks st))"

lemma work_runTask:
  "work (runTask t ((st::nsandbox)\<lparr>microtasks := ts\<rparr>)) < weight t + sum_list (map weight ts)"
  by (cases t)
     (auto simp: work_def exportLookup_def exportRespond_def resume_def enqueue_def log_def
        sendData_def streamWrite_def clearTimeout_def Let_def
        split: property.splits method_result.splits sum.splits option.splits awaiter.splits
          outcome.splits prod.splits)

text \<open>After each event the job queue is run until it is empty.\<close>

function runMicrotasks :: "nsandbox \<Rightarrow> nsandbox" where
  "runMicrotasks st =
     (case microtasks st of
        [] \<Rightarrow> st
      | t # ts \<Rightarrow> runMicrotasks (runTask t (st\<lparr>microtasks := ts\<rparr>)))"
  by pat_completeness auto
termination
proof (relation "measure work")
  show "wf (measure work)" by simp
next
  fix st :: nsandbox and t ts
  assume "microtasks st = t # ts"
  then show "(runTask t (st\<lparr>microtasks := ts\<rparr>), st) \<in> measure work"
    using work_runTask [where t = t and st = st and ts = ts] by (simp add: work_def)
qed

declare runMicrotasks.simps [simp del]

section \<open>Shutdown and the events\<close>

text \<open>
  \<open>shutdown\<close> up to its \<open>await\<close>. (\<open>shutdown.removeCleanupHandlers\<close> belongs to another
  module and touches nothing here.) The result is the promise the call waits on.
\<close>

definition shutdown :: "nsandbox \<Rightarrow> nat \<times> nsandbox" where
  "shutdown st =
     (let st1 = log Sandbox_shutdown_starting st;
          (timeoutID, st2) = setTimeout 1000 st1;
          p = nextPromise st2;
          st3 = st2\<lparr>nextPromise := Suc p\<rparr>;
          st4 = (if isWriteClosed st3 then settle p (Resolve VUndefined) st3 else st3);
          st5 = st4\<lparr>childListeners := childListeners st4 @ [p]\<rparr>;
          st6 = close st5
      in (p, await p (ShutdownWait timeoutID) st6))"

text \<open>The kill timer's callback.\<close>

definition timerFires :: "nat \<Rightarrow> nsandbox \<Rightarrow> nsandbox" where
  "timerFires timeoutID st =
     (if map_of (timers st) timeoutID = None then st
      else
        let st1 = clearTimeout timeoutID st;
            st2 = log Sandbox_sending_SIGKILL st1
        in st2\<lparr>kills := Suc (kills st2)\<rparr>)"

definition settleAll :: "outcome \<Rightarrow> nat list \<Rightarrow> nsandbox \<Rightarrow> nsandbox" where
  "settleAll out ps st = foldl (\<lambda>s p. settle p out s) st ps"

text \<open>
  What can happen to a controller: a call of \<open>pyCall\<close> or \<open>shutdown\<close>; \<open>data\<close>, \<open>end\<close>
  and \<open>error\<close> of the stream from the sandbox; \<open>error\<close> of the stream to the sandbox;
  \<open>exit\<close>, \<open>close\<close> and \<open>error\<close> of the child process; a timer firing; the promise of
  an exported function settling. The listeners run in the order the file registers them:
  on \<open>close\<close> and \<open>error\<close> of the child, \<open>_onExit\<close> and \<open>_onError\<close> come before the
  listeners of \<open>shutdown\<close>.
\<close>

datatype event =
    CallPy js_string "jsval list"
  | CallShutdown
  | FromData "jsval list"
  | FromEnd
  | FromError js_string
  | ToError js_string
  | ChildExit jsval jsval
  | ChildClose jsval jsval
  | ChildError js_string
  | TimerFires nat
  | ExportSettles nat "js_string option + jsval"

fun handle :: "event \<Rightarrow> nsandbox \<Rightarrow> nsandbox" where
  "handle (CallPy funcName varArgs) st = snd (pyCall st funcName varArgs)"
| "handle CallShutdown st = snd (shutdown st)"
| "handle (FromData vals) st = onSandboxData st vals"
| "handle FromEnd st = onSandboxClose st"
| "handle (FromError err) st = onSandboxClose (log (Sandbox_error_reading err) st)"
| "handle (ToError err) st =
     (if \<not> isWriteClosed st then log (Sandbox_error_writing err) st else st)"
| "handle (ChildExit code signal) st = settleAll (Resolve code) (childListeners st) st"
| "handle (ChildClose code signal) st =
     (let st1 = onExit st code signal in settleAll (Resolve code) (childListeners st1) st1)"
| "handle (ChildError err) st =
     (let st1 = onError st err in settleAll (Reject (Error err)) (childListeners st1) st1)"
| "handle (TimerFires timeoutID) st = timerFires timeoutID st"
| "handle (ExportSettles k r) st =
     (if k \<in> set (exportsRunning st)
      then enqueue (ExportRespond r) (st\<lparr>exportsRunning := remove1 k (exportsRunning st)\<rparr>)
      else st)"

definition step :: "event \<Rightarrow> nsandbox \<Rightarrow> nsandbox" where
  "step e st = runMicrotasks (handle e st)"

definition run :: "event list \<Rightarrow> nsandbox \<Rightarrow> nsandbox" where
  "run es st = foldl (\<lambda>s e. step e s) st es"


section \<open>Spawning and the factory\<close>

text \<open>
  What the file reads from its host: \<open>process.cwd()\<close>, four variables of
  \<open>process.env\<close>, and \<open>path.join\<close>.
\<close>

record host =
  cwd :: js_string
  OS :: "js_string option"
  LIBFAKETIME_PATH :: "js_string option"
  GRIST_THROTTLE_CPU :: "js_string option"
  RECORD_SANDBOX_BUFFERS_DIR :: "js_string option"
  pathJoin :: "js_string list \<Rightarrow> js_string"

text \<open>An absent or empty string is falsy.\<close>

fun truthy :: "js_string option \<Rightarrow> bool" where
  "truthy None = False"
| "truthy (Some s) = (s \<noteq> [])"

fun or_else :: "js_string option \<Rightarrow> js_string \<Rightarrow> js_string" where
  "or_else None d = d"
| "or_else (Some s) d = (if s = [] then d else s)"

text \<open>
  \<open>ISandboxOptions\<close>. The fields \<open>logCalls\<close>, \<open>logTimes\<close> and \<open>logMeta\<close> appear in
  both option types of the source; here those of \<open>ISandboxOptions\<close> end in \<open>_opt\<close>, and
  \<open>logMeta\<close>, which only decorates log lines, is left out.
\<close>

record ISandboxOptions =
  args :: "js_string list"
  exports :: "(js_string \<rightharpoonup> SandboxMethod) option"
  logCalls_opt :: "bool option"
  logTimes_opt :: "bool option"
  unsilenceLog :: "bool option"
  selLdrArgs :: "js_string list option"
  command :: "js_string option"
  env :: "(js_string \<times> js_string) list option"

text \<open>The call of \<open>child_process.spawn\<close> that \<open>NSandbox.spawn\<close> makes (the \<open>stdio\<close>
  option is the same five pipes in both branches).\<close>

record SpawnRequest =
  spawnFile :: js_string
  argv :: "js_string list"
  spawnCwd :: "js_string option"
  spawnEnv :: "(js_string \<times> js_string) list option"

definition spawn :: "host \<Rightarrow> ISandboxOptions \<Rightarrow> SpawnRequest" where
  "spawn h options =
     (if truthy (command options) then
        \<lparr>spawnFile = or_else (command options) [], argv = args options,
         spawnCwd = Some (pathJoin h [cwd h, js ''sandbox'']), spawnEnv = env options\<rparr>
      else
        let noLog = (if unsilenceLog options = Some True then []
                     else if OS h = Some (js ''Windows_NT'') then [js ''-l'', js ''NUL'']
                     else [js ''-l'', js ''/dev/null'']);
            pairs = (case env options of None \<Rightarrow> [] | Some kvs \<Rightarrow> kvs);
            selLdr = [js ''-r'', js ''3:3'', js ''-w'', js ''4:4'']
                     @ (case selLdrArgs options of None \<Rightarrow> [] | Some xs \<Rightarrow> xs)
                     @ concat (map (\<lambda>(key, value). [js ''-E'', key @ js ''='' @ value]) pairs)
        in \<lparr>spawnFile = js ''sandbox/nacl/bin/sel_ldr'',
            argv = [js ''-B'', js ''./sandbox/nacl/lib/irt_core.nexe'',
                    js ''-m'', js ''./sandbox/nacl/root:/:ro'']
                   @ noLog @ selLdr
                   @ [js ''./sandbox/nacl/lib/runnable-ld.so'',
                      js ''--library-path'', js ''/slib'', js ''/python/bin/python2.7.nexe'']
                   @ args options,
            spawnCwd = None, spawnEnv = env options\<rparr>)"

text \<open>The constructor: the controller as it stands when \<open>new NSandbox(options)\<close> returns.\<close>

definition NSandbox :: "host \<Rightarrow> ISandboxOptions \<Rightarrow> nsandbox" where
  "NSandbox h options =
     \<lparr>logTimes = (logTimes_opt options = Some True \<or> logCalls_opt options = Some True),
      exportedFunctions = (case exports options of None \<Rightarrow> Map.empty | Some fs \<Rightarrow> fs),
      pendingReads = [],
      isReadClosed = False,
      isWriteClosed = False,
      throttle = (if truthy (GRIST_THROTTLE_CPU h) then Some 0 else None),
      recordBuffers = truthy (RECORD_SANDBOX_BUFFERS_DIR h),
      written = [],
      ended = 0,
      recordedInput = [],
      recordedOutput = [],
      logs = Sandbox_started #
        (if truthy (RECORD_SANDBOX_BUFFERS_DIR h) then [Recording_sandbox_buffers] else []),
      settled = [],
      awaiting = [],
      returned = [],
      nextPromise = 0,
      microtasks = [],
      timers = [],
      nextTimer = 0,
      kills = 0,
      childListeners = [],
      exportsRunning = [],
      uncaught = []\<rparr>"

datatype flavor = pynbox | unsandboxed

text \<open>\<open>ISandboxCreationOptions\<close>, with \<open>_copt\<close> on the two logging fields.\<close>

record ISandboxCreationOptions =
  entryPoint :: "js_string option"
  comment :: "js_string option"
  sandboxMount :: "js_string option"
  importMount :: "js_string option"
  docUrl :: "js_string option"
  logCalls_copt :: "bool option"
  logTimes_copt :: "bool option"

definition code_unit :: "char \<Rightarrow> 16 word" where
  "code_unit c = of_nat (of_char c)"

text \<open>The characters the class \<open>[^-a-zA-Z0-9_:/?&.]\<close> does not match.\<close>

definition docUrlChar :: "16 word \<Rightarrow> bool" where
  "docUrlChar c =
     (c = code_unit CHR ''-''
      \<or> (code_unit CHR ''a'' \<le> c \<and> c \<le> code_unit CHR ''z'')
      \<or> (code_unit CHR ''A'' \<le> c \<and> c \<le> code_unit CHR ''Z'')
      \<or> (code_unit CHR ''0'' \<le> c \<and> c \<le> code_unit CHR ''9'')
      \<or> c \<in> set (js ''_:/?&.''))"

text \<open>\<open>s.replace(re, '')\<close> for a regular expression \<open>re\<close> that matches one code unit and
  has no \<open>g\<close> flag: the first match is removed.\<close>

fun replace_first :: "('a \<Rightarrow> bool) \<Rightarrow> 'a list \<Rightarrow> 'a list" where
  "replace_first matches [] = []"
| "replace_first matches (c # cs) = (if matches c then cs else c # replace_first matches cs)"

definition createEnv :: "host \<Rightarrow> flavor \<Rightarrow> ISandboxCreationOptions \<Rightarrow> (js_string \<times> js_string) list"
  where
  "createEnv h fl options =
     [(js ''PYTHONPATH'',
         if fl = pynbox then js ''grist:thirdparty''
         else pathJoin h [cwd h, js ''sandbox'', js ''grist''] @ js '':'' @
              pathJoin h [cwd h, js ''venv'', js ''lib'', js ''python2.7'', js ''site-packages'']),
      (js ''DOC_URL'',
         replace_first (\<lambda>c. \<not> docUrlChar c) (or_else (docUrl options) []))]
     @ (case LIBFAKETIME_PATH h of
          None \<Rightarrow> []
        | Some lib \<Rightarrow>
            if lib = [] then []
            else [(js ''DETERMINISTIC_MODE'', js ''1''),
                  (js ''FAKETIME'', js ''2020-01-01 00:00:00''),
                  (js ''LD_PRELOAD'', lib),
                  (js ''DYLD_INSERT_LIBRARIES'', lib),
                  (js ''DYLD_FORCE_FLAT_NAMESPACE'', js ''1'')])"

text \<open>The options \<open>NSandboxCreator.create\<close> passes to the constructor.\<close>

definition createOptions :: "host \<Rightarrow> flavor \<Rightarrow> ISandboxCreationOptions \<Rightarrow> ISandboxOptions" where
  "createOptions h fl options =
     (let defaultEntryPoint = (if fl = pynbox then js ''grist/main.pyc'' else js ''grist/main.py'');
          args0 = [or_else (entryPoint options) defaultEntryPoint];
          args1 = (if \<not> truthy (entryPoint options) \<and> truthy (comment options)
                   then args0 @ [or_else (comment options) []] else args0);
          selLdrArgs0 = (if truthy (sandboxMount options)
                         then [js ''-m'', or_else (sandboxMount options) [] @ js '':/sandbox:ro'']
                         else []);
          selLdrArgs1 = (if truthy (importMount options)
                         then selLdrArgs0 @
                              [js ''-m'', or_else (importMount options) [] @ js '':/importdir:ro'']
                         else selLdrArgs0)
      in \<lparr>args = args1,
          exports = None,
          logCalls_opt = logCalls_copt options,
          logTimes_opt = logTimes_copt options,
          unsilenceLog = None,
          selLdrArgs = Some selLdrArgs1,
          command = (if fl = pynbox then None else Some (js ''python2.7'')),
          env = Some (createEnv h fl options)\<rparr>)"

text \<open>\<open>NSandboxCreator.create\<close>: the process it spawns and the controller it returns.\<close>

definition create :: "host \<Rightarrow> flavor \<Rightarrow> ISandboxCreationOptions \<Rightarrow> SpawnRequest \<times> nsandbox" where
  "create h fl options =
     (let opts = createOptions h fl options in (spawn h opts, NSandbox h opts))"

section \<open>Definitions for the statements\<close>

text \<open>The fields no promise job changes.\<close>

definition same_core :: "nsandbox \<Rightarrow> nsandbox \<Rightarrow> bool" where
  "same_core st st' =
     (pendingReads st' = pendingReads st \<and> settled st' = settled st
      \<and> isReadClosed st' = isReadClosed st \<and> isWriteClosed st' = isWriteClosed st
      \<and> ended st' = ended st \<and> kills st' = kills st
      \<and> childListeners st' = childListeners st \<and> awaiting st' = awaiting st
      \<and> nextPromise st' = nextPromise st \<and> nextTimer st' = nextTimer st
      \<and> throttle st' = throttle st \<and> logTimes st' = logTimes st
      \<and> exportedFunctions st' = exportedFunctions st \<and> recordBuffers st' = recordBuffers st
      \<and> uncaught st' = uncaught st \<and> recordedOutput st' = recordedOutput st)"

text \<open>
  A decoded value read as a frame; the frames on which \<open>_onSandboxMsg\<close> throws, which are
  the calls whose function name cannot be converted to a string; the frames that are not
  calls; what a response does to the promise of the pending call it meets, and the same
  along a list of pending calls.
\<close>

definition frame :: "jsval \<Rightarrow> (jsval \<times> jsval) option" where
  "frame v = (case (js_index v 0, js_index v 1) of
                (Some msgCode, Some data) \<Rightarrow> Some (msgCode, data) | _ \<Rightarrow> None)"

definition throwing :: "jsval \<times> jsval \<Rightarrow> bool" where
  "throwing f =
     (fst f = CALL \<and> isArray (snd f) \<and> elements (snd f) \<noteq> []
      \<and> js_toString (hd (elements (snd f))) = None)"

definition responses :: "(jsval \<times> jsval) list \<Rightarrow> (jsval \<times> jsval) list" where
  "responses fs = filter (\<lambda>f. fst f \<noteq> CALL) fs"

definition completion :: "nat \<times> jsval \<times> jsval \<Rightarrow> (nat \<times> outcome) list" where
  "completion x = (case x of (p, msgCode, data) \<Rightarrow>
     if msgCode = DATA then [(p, Resolve data)]
     else if msgCode = EXC then [(p, Reject (SandboxError data))]
     else [])"

definition completions :: "nat list \<Rightarrow> (jsval \<times> jsval) list \<Rightarrow> (nat \<times> outcome) list" where
  "completions ps rs = concat (map completion (zip ps rs))"


text \<open>An example host (with a POSIX \<open>path.join\<close> on already normal paths), and the
  controller \<open>create\<close> returns for it when given no options.\<close>

fun join_slash :: "js_string list \<Rightarrow> js_string" where
  "join_slash [] = js ''.''"
| "join_slash [s] = s"
| "join_slash (s # t) = s @ js ''/'' @ join_slash t"

definition exampleHost :: host where
  "exampleHost = \<lparr>cwd = js ''/srv/grist'', OS = None, LIBFAKETIME_PATH = None,
     GRIST_THROTTLE_CPU = Some (js ''1''), RECORD_SANDBOX_BUFFERS_DIR = None, pathJoin = join_slash\<rparr>"

definition noOptions :: ISandboxCreationOptions where
  "noOptions = \<lparr>entryPoint = None, comment = None, sandboxMount = None, importMount = None,
     docUrl = None, logCalls_copt = None, logTimes_copt = None\<rparr>"

definition exampleSandbox :: nsandbox where
  "exampleSandbox = snd (create exampleHost pynbox noOptions)"

text \<open>The example controller after two calls of \<open>pyCall\<close>.\<close>

definition twoCalls :: nsandbox where
  "twoCalls = run [CallPy (js ''add'') [VNum 2, VNum 3], CallPy (js ''boom'') []] exampleSandbox"

text \<open>
  The consistency of the promises, timers and streams of a controller: what every event and
  every promise job keeps. \<open>resume_ids\<close> lists the promises whose continuations are
  queued. A timer is \<open>live\<close> while the \<open>shutdown\<close> that started it has not been
  resumed with a result.
\<close>

fun resume_ids :: "microtask list \<Rightarrow> nat list" where
  "resume_ids [] = []"
| "resume_ids (Resume p # ts) = p # resume_ids ts"
| "resume_ids (t # ts) = resume_ids ts"

definition live :: "nsandbox \<Rightarrow> nat \<Rightarrow> bool" where
  "live st t = (\<forall>p v. map_of (awaiting st) p = Some (ShutdownWait t) \<longrightarrow>
                       map_of (settled st) p \<noteq> Some (Resolve v))"

definition inv_fresh :: "nsandbox \<Rightarrow> bool" where
  "inv_fresh st =
     ((\<forall>p. nextPromise st \<le> p \<longrightarrow>
           map_of (settled st) p = None \<and> map_of (awaiting st) p = None
           \<and> p \<notin> set (childListeners st) \<and> p \<notin> set (pendingReads st)
           \<and> p \<notin> fst ` set (returned st) \<and> p \<notin> set (resume_ids (microtasks st)))
      \<and> (\<forall>t. nextTimer st \<le> t \<longrightarrow>
           map_of (timers st) t = None
           \<and> (\<forall>p. map_of (awaiting st) p \<noteq> Some (ShutdownWait t))))"

definition inv_reads :: "nsandbox \<Rightarrow> bool" where
  "inv_reads st =
     ((\<forall>p f. map_of (awaiting st) p = Some (PyCallWait f) \<longrightarrow>
           count_list (map fst (settled st)) p + count_list (pendingReads st) p \<le> 1)
      \<and> (\<forall>p \<in> set (pendingReads st). \<exists>f. map_of (awaiting st) p = Some (PyCallWait f)))"

definition inv_listeners :: "nsandbox \<Rightarrow> bool" where
  "inv_listeners st =
     (distinct (childListeners st)
      \<and> (\<forall>p. p \<in> set (childListeners st) \<longleftrightarrow>
               (\<exists>t. map_of (awaiting st) p = Some (ShutdownWait t))))"

definition inv_resume :: "nsandbox \<Rightarrow> bool" where
  "inv_resume st =
     (\<forall>p. count_list (resume_ids (microtasks st)) p + count_list (map fst (returned st)) p =
          (if map_of (settled st) p \<noteq> None \<and> map_of (awaiting st) p \<noteq> None then 1 else 0))"

definition inv_close :: "nsandbox \<Rightarrow> bool" where
  "inv_close st =
     (ended st = (if isWriteClosed st then 1 else 0)
      \<and> (\<not> isWriteClosed st \<longrightarrow> timers st = [] \<and> kills st = 0 \<and> childListeners st = []))"

definition inv_timers :: "nsandbox \<Rightarrow> bool" where
  "inv_timers st =
     ((\<forall>p t v. map_of (awaiting st) p = Some (ShutdownWait t)
               \<and> map_of (settled st) p = Some (Resolve v) \<and> map_of (timers st) t \<noteq> None
               \<longrightarrow> p \<in> set (resume_ids (microtasks st)))
      \<and> kills st + length (filter (\<lambda>x. live st (fst x)) (timers st)) \<le> 1)"

definition inv_all :: "nsandbox \<Rightarrow> bool" where
  "inv_all st = (inv_fresh st \<and> inv_reads st \<and> inv_listeners st \<and> inv_resume st
             \<and> inv_close st \<and> inv_timers st)"

text \<open>The fields the invariant reads.\<close>

definition rel :: "nsandbox \<Rightarrow> nsandbox \<Rightarrow> bool" where
  "rel st st' =
     (settled st' = settled st \<and> awaiting st' = awaiting st \<and> returned st' = returned st
      \<and> resume_ids (microtasks st') = resume_ids (microtasks st)
      \<and> nextPromise st' = nextPromise st \<and> pendingReads st' = pendingReads st
      \<and> childListeners st' = childListeners st \<and> timers st' = timers st
      \<and> nextTimer st' = nextTimer st \<and> kills st' = kills st
      \<and> isWriteClosed st' = isWriteClosed st \<and> ended st' = ended st)"

definition at_rest :: "nsandbox \<Rightarrow> bool" where
  "at_rest st = (inv_all st \<and> microtasks st = [])"

text \<open>
  A promise that nothing can complete any more: it has been made and is not completed,
  and neither the pending calls nor the listeners on the child process hold its
  \<open>resolve\<close> and \<open>reject\<close>.
\<close>

definition orphan :: "nsandbox \<Rightarrow> nat \<Rightarrow> bool" where
  "orphan st p =
     (p < nextPromise st \<and> p \<notin> set (pendingReads st) \<and> p \<notin> set (childListeners st)
      \<and> p \<notin> fst ` set (settled st))"


section \<open>Effects of the operations\<close>

text \<open>Each operation as one update of the state it is given.\<close>

lemma stopThrottle_alt: "stopThrottle st = st\<lparr>throttle := map_option Suc (throttle st)\<rparr>"
  by (cases st) (simp add: stopThrottle_def split: option.splits)


lemma settle_alt:
  "settle p out st =
     st\<lparr>settled := settled st @ [(p, out)],
        microtasks := (if map_of (settled st) p = None \<and> map_of (awaiting st) p \<noteq> None
                       then microtasks st @ [Resume p] else microtasks st)\<rparr>"
  by (cases st) (simp add: settle_def enqueue_def Let_def)


lemma await_alt:
  "await p a st =
     st\<lparr>awaiting := awaiting st @ [(p, a)],
        microtasks := (if map_of (settled st) p = None then microtasks st
                       else microtasks st @ [Resume p])\<rparr>"
  by (cases st) (simp add: await_def enqueue_def Let_def)


lemma close_alt:
  "close st =
     st\<lparr>throttle := map_option Suc (throttle st),
        ended := (if isWriteClosed st then ended st else Suc (ended st)),
        isWriteClosed := True\<rparr>"
  by (cases st) (simp add: close_def stopThrottle_def Let_def split: option.splits)


lemma streamWrite_alt:
  "streamWrite fr st = st\<lparr>written := (if ended st = 0 then written st @ [fr] else written st)\<rparr>"
  by (cases st) (simp add: streamWrite_def)


lemma sendData_alt:
  "sendData st c d =
     (if isReadClosed st then Some (SandboxError (VStr (js ''PipeToSandbox is closed''))) else None,
      if isReadClosed st then st
      else st\<lparr>recordedInput := (if recordBuffers st then recordedInput st @ [(c, d)]
                                 else recordedInput st),
              written := (if ended st = 0 then written st @ [(c, d)] else written st)\<rparr>)"
  by (cases st) (simp add: sendData_def streamWrite_def Let_def)

lemma shutdown_general:
  "shutdown st =
     (nextPromise st,
      st\<lparr>logs := logs st @ [Sandbox_shutdown_starting],
        timers := timers st @ [(nextTimer st, 1000)],
        nextTimer := Suc (nextTimer st),
        nextPromise := Suc (nextPromise st),
        settled := (if isWriteClosed st then settled st @ [(nextPromise st, Resolve VUndefined)]
                    else settled st),
        childListeners := childListeners st @ [nextPromise st],
        throttle := map_option Suc (throttle st),
        ended := (if isWriteClosed st then ended st else Suc (ended st)),
        isWriteClosed := True,
        awaiting := awaiting st @ [(nextPromise st, ShutdownWait (nextTimer st))],
        microtasks :=
          (if isWriteClosed st
           then if map_of (settled st) (nextPromise st) = None
                   \<and> map_of (awaiting st) (nextPromise st) \<noteq> None
                then microtasks st @ [Resume (nextPromise st), Resume (nextPromise st)]
                else microtasks st @ [Resume (nextPromise st)]
           else if map_of (settled st) (nextPromise st) = None then microtasks st
                else microtasks st @ [Resume (nextPromise st)])\<rparr>)"
proof -
  define st1 where "st1 = log Sandbox_shutdown_starting st"
  define st2 where "st2 = snd (setTimeout 1000 st1)"
  define st3 where "st3 = st2\<lparr>nextPromise := Suc (nextPromise st2)\<rparr>"
  define st4 where "st4 = (if isWriteClosed st3
      then settle (nextPromise st2) (Resolve VUndefined) st3 else st3)"
  define st5 where "st5 = st4\<lparr>childListeners := childListeners st4 @ [nextPromise st2]\<rparr>"
  define st6 where "st6 = close st5"
  have unfold: "shutdown st =
      (nextPromise st2,
       await (nextPromise st2) (ShutdownWait (fst (setTimeout 1000 st1))) st6)"
    unfolding shutdown_def st1_def st2_def st3_def st4_def st5_def st6_def
    by (simp only: Let_def split_def)
  have t: "fst (setTimeout 1000 st1) = nextTimer st"
    by (simp add: setTimeout_def st1_def log_def)
  have 2: "st2 = st\<lparr>logs := logs st @ [Sandbox_shutdown_starting],
        timers := timers st @ [(nextTimer st, 1000)], nextTimer := Suc (nextTimer st)\<rparr>"
    by (simp add: st2_def setTimeout_def st1_def log_def)
  have 4: "st4 = st\<lparr>logs := logs st @ [Sandbox_shutdown_starting],
        timers := timers st @ [(nextTimer st, 1000)], nextTimer := Suc (nextTimer st),
        nextPromise := Suc (nextPromise st),
        settled := (if isWriteClosed st then settled st @ [(nextPromise st, Resolve VUndefined)]
                    else settled st),
        microtasks := (if isWriteClosed st \<and> map_of (settled st) (nextPromise st) = None
                          \<and> map_of (awaiting st) (nextPromise st) \<noteq> None
                       then microtasks st @ [Resume (nextPromise st)] else microtasks st)\<rparr>"
    by (cases "isWriteClosed st") (simp_all add: st4_def st3_def 2 settle_alt)
  show ?thesis
  proof (cases "isWriteClosed st")
    case True
    then show ?thesis
      unfolding unfold t by (simp add: st6_def st5_def 4 2 close_alt await_alt)
  next
    case False
    then show ?thesis
      unfolding unfold t by (simp add: st6_def st5_def 4 2 close_alt await_alt)
  qed
qed

lemma shutdown_alt:
  assumes "map_of (settled st) (nextPromise st) = None"
    and "map_of (awaiting st) (nextPromise st) = None"
  shows "shutdown st =
     (nextPromise st,
      st\<lparr>logs := logs st @ [Sandbox_shutdown_starting],
        timers := timers st @ [(nextTimer st, 1000)],
        nextTimer := Suc (nextTimer st),
        nextPromise := Suc (nextPromise st),
        settled := (if isWriteClosed st then settled st @ [(nextPromise st, Resolve VUndefined)]
                    else settled st),
        childListeners := childListeners st @ [nextPromise st],
        throttle := map_option Suc (throttle st),
        ended := (if isWriteClosed st then ended st else Suc (ended st)),
        isWriteClosed := True,
        awaiting := awaiting st @ [(nextPromise st, ShutdownWait (nextTimer st))],
        microtasks := (if isWriteClosed st then microtasks st @ [Resume (nextPromise st)]
                       else microtasks st)\<rparr>)"
  using assms by (simp add: shutdown_general)

lemma pyCall_alt:
  "pyCall st f a =
     (if isReadClosed st then (Inl (SandboxError (VStr (js ''PipeToSandbox is closed''))), st)
      else (Inr (nextPromise st),
        st\<lparr>recordedInput := (if recordBuffers st
                                then recordedInput st @ [(CALL, VArr (VStr f # a))]
                                else recordedInput st),
           written := (if ended st = 0 then written st @ [(CALL, VArr (VStr f # a))]
                       else written st),
           nextPromise := Suc (nextPromise st),
           pendingReads := pendingReads st @ [nextPromise st],
           awaiting := awaiting st @ [(nextPromise st, PyCallWait f)],
           microtasks := (if map_of (settled st) (nextPromise st) = None then microtasks st
                          else microtasks st @ [Resume (nextPromise st)])\<rparr>))"
  by (simp add: pyCall_def sendData_alt pyCallWait_def await_alt Let_def)

lemma timerFires_alt:
  "timerFires t st =
     st\<lparr>timers := filter (\<lambda>x. fst x \<noteq> t) (timers st),
        logs := (if map_of (timers st) t = None then logs st
                 else logs st @ [Sandbox_sending_SIGKILL]),
        kills := (if map_of (timers st) t = None then kills st else Suc (kills st))\<rparr>"
proof -
  have "filter (\<lambda>x. fst x \<noteq> t) ts = ts" if "map_of ts t = None" for ts :: "(nat \<times> nat) list"
    using that by (induction ts) (auto split: if_splits)
  then show ?thesis
    by (cases st) (simp add: timerFires_def clearTimeout_def log_def Let_def)
qed

lemma fst_onSandboxMsg:
  "fst (onSandboxMsg st msgCode data) =
     (if throwing (msgCode, data) then Some (TypeError cannot_convert_to_primitive) else None)"
  by (simp add: onSandboxMsg_def throwing_def Let_def split: option.splits)

lemma onSandboxMsg_throwing:
  "throwing (msgCode, data) \<Longrightarrow>
     onSandboxMsg st msgCode data = (Some (TypeError cannot_convert_to_primitive), st)"
  by (auto simp: onSandboxMsg_def throwing_def Let_def split: option.splits)

lemma onSandboxMsg_alt:
  assumes "\<not> throwing (msgCode, data)"
  shows "snd (onSandboxMsg st msgCode data) =
     (if msgCode = CALL then
        st\<lparr>logs := logs st @
                 [if \<not> isArray data \<or> elements data = [] then Sandbox_invalid_call
                  else Sandbox_got_call (the (js_toString (hd (elements data))))
                         (length (tl (elements data)))],
           microtasks := (if \<not> isArray data \<or> elements data = [] then microtasks st
                          else microtasks st @
                                 [ExportLookup (hd (elements data)) (tl (elements data))])\<rparr>
      else
        st\<lparr>pendingReads := tl (pendingReads st),
           settled := settled st @ completions (pendingReads st) [(msgCode, data)],
           logs := (if pendingReads st = [] \<or> msgCode = EXC \<or> msgCode = DATA then logs st
                    else logs st @ [Sandbox_invalid_message]),
           microtasks := (if pendingReads st \<noteq> [] \<and> (msgCode = EXC \<or> msgCode = DATA)
                            \<and> map_of (settled st) (hd (pendingReads st)) = None
                            \<and> map_of (awaiting st) (hd (pendingReads st)) \<noteq> None
                          then microtasks st @ [Resume (hd (pendingReads st))]
                          else microtasks st)\<rparr>)"
proof (cases "msgCode = CALL")
  case True
  show ?thesis
  proof (cases "\<not> isArray data \<or> elements data = []")
    case True
    then show ?thesis
      using \<open>msgCode = CALL\<close> by (cases st) (auto simp: onSandboxMsg_def log_def)
  next
    case False
    then obtain name where "js_toString (hd (elements data)) = Some name"
      using assms True by (auto simp: throwing_def)
    then show ?thesis
      using \<open>msgCode = CALL\<close> False
      by (cases st) (auto simp: onSandboxMsg_def log_def enqueue_def Let_def)
  qed
next
  case False
  then show ?thesis
    by (cases st; cases "pendingReads st")
       (auto simp: onSandboxMsg_def settle_alt enqueue_def log_def completions_def completion_def
          CALL_def DATA_def EXC_def Let_def)
qed

lemma response_not_throwing [simp]: "msgCode \<noteq> CALL \<Longrightarrow> \<not> throwing (msgCode, data)"
  by (simp add: throwing_def)

text \<open>What \<open>_onSandboxData\<close> does with the first value of a chunk.\<close>

lemma onSandboxData_Cons:
  "onSandboxData st (v # vs) =
     (let st1 = (if recordBuffers st then st\<lparr>recordedOutput := recordedOutput st @ [v]\<rparr> else st)
      in case frame v of
           None \<Rightarrow> st1\<lparr>uncaught := uncaught st1 @
                         [CannotRead (js ''0'')]\<rparr>
         | Some f \<Rightarrow>
             if throwing f
             then st1\<lparr>uncaught := uncaught st1 @ [TypeError cannot_convert_to_primitive]\<rparr>
             else onSandboxData (snd (onSandboxMsg st1 (fst f) (snd f))) vs)"
proof -
  have "(case onSandboxMsg s c d of
           (None, st2) \<Rightarrow> onSandboxData st2 vs
         | (Some e, st2) \<Rightarrow> st2\<lparr>uncaught := uncaught st2 @ [e]\<rparr>) =
        (if throwing (c, d)
         then s\<lparr>uncaught := uncaught s @ [TypeError cannot_convert_to_primitive]\<rparr>
         else onSandboxData (snd (onSandboxMsg s c d)) vs)" for s c d
    using fst_onSandboxMsg [of s c d] onSandboxMsg_throwing [of c d s]
    by (cases "onSandboxMsg s c d") (auto split: option.splits)
  then show ?thesis
    by (simp add: frame_def Let_def split: option.splits)
qed

declare onSandboxData.simps(2) [simp del]

lemma frame_VArr [simp]: "frame (VArr (c # d # xs)) = Some (c, d)"
  by (simp add: frame_def)

lemma resume_alt:
  "resume p st =
     (case (map_of (awaiting st) p, map_of (settled st) p) of
        (Some a, Some out) \<Rightarrow>
          st\<lparr>logs := (case a of PyCallWait f \<Rightarrow>
                              if logTimes st then logs st @ [Sandbox_pyCall_took f] else logs st
                            | ShutdownWait t \<Rightarrow> logs st),
             timers := (case (a, out) of
                          (ShutdownWait t, Resolve v) \<Rightarrow> filter (\<lambda>x. fst x \<noteq> t) (timers st)
                        | _ \<Rightarrow> timers st),
             returned := returned st @ [(p, out)]\<rparr>
      | _ \<Rightarrow> st)"
  by (simp add: resume_def clearTimeout_def log_def Let_def
        split: option.splits awaiter.splits outcome.splits)

lemma exportRespond_alt:
  "exportRespond r st =
     (case r of
        Inl None \<Rightarrow>
          st\<lparr>microtasks := microtasks st @
             [ExportCatch (CannotRead (js ''toString''))]\<rparr>
      | _ \<Rightarrow>
          if isReadClosed st
          then st\<lparr>microtasks := microtasks st @
                  [ExportCatch (SandboxError (VStr (js ''PipeToSandbox is closed'')))]\<rparr>
          else
            let fr = (case r of Inr ret \<Rightarrow> (DATA, ret) | Inl e \<Rightarrow> (EXC, VStr (the e)))
            in st\<lparr>recordedInput := (if recordBuffers st then recordedInput st @ [fr]
                                       else recordedInput st),
                  written := (if ended st = 0 then written st @ [fr] else written st)\<rparr>)"
  by (simp add: exportRespond_def sendData_alt enqueue_def Let_def split: sum.splits option.splits)

lemma same_core_refl: "same_core st st" by (simp add: same_core_def)
lemma same_core_trans: "same_core a b \<Longrightarrow> same_core b c \<Longrightarrow> same_core a c" by (simp add: same_core_def)

lemma same_core_runTask: "same_core st (runTask t st)"
proof (cases t)
  case (ExportLookup fname xs)
  then show ?thesis
    by (simp add: same_core_def exportLookup_def enqueue_def
          split: property.splits method_result.splits option.splits)
next
  case (ExportRespond r)
  then show ?thesis
    by (simp add: same_core_def exportRespond_alt Let_def split: sum.splits option.splits)
next
  case (ExportCatch err)
  then show ?thesis by (simp add: same_core_def log_def)
next
  case (Resume p)
  then show ?thesis
    by (simp add: same_core_def resume_alt split: option.splits)
qed

lemma same_core_dequeue: "same_core st (st\<lparr>microtasks := ts\<rparr>)" by (simp add: same_core_def)

lemma runMicrotasks_Nil: "microtasks st = [] \<Longrightarrow> runMicrotasks st = st"
  by (simp add: runMicrotasks.simps)

lemma runMicrotasks_Cons:
  "microtasks st = t # ts \<Longrightarrow> runMicrotasks st = runMicrotasks (runTask t (st\<lparr>microtasks := ts\<rparr>))"
  by (simp add: runMicrotasks.simps [of st])

lemma same_core_runMicrotasks: "same_core st (runMicrotasks st)"
proof (induction st rule: runMicrotasks.induct)
  case (1 st)
  show ?case
  proof (cases "microtasks st")
    case Nil
    then show ?thesis by (simp add: runMicrotasks_Nil same_core_refl)
  next
    case (Cons t ts)
    have "same_core st (runTask t (st\<lparr>microtasks := ts\<rparr>))"
      using same_core_dequeue same_core_runTask same_core_trans by blast
    moreover have "same_core (runTask t (st\<lparr>microtasks := ts\<rparr>))
        (runMicrotasks (runTask t (st\<lparr>microtasks := ts\<rparr>)))"
      using 1 Cons by simp
    ultimately show ?thesis using Cons
      by (simp add: runMicrotasks_Cons) (rule same_core_trans)
  qed
qed

lemma microtasks_runMicrotasks: "microtasks (runMicrotasks st) = []"
proof (induction st rule: runMicrotasks.induct)
  case (1 st)
  show ?case
    by (cases "microtasks st") (use 1 in \<open>simp_all add: runMicrotasks_Nil runMicrotasks_Cons\<close>)
qed

lemma run_Nil [simp]: "run [] st = st"
  by (simp add: run_def)

lemma run_Cons [simp]: "run (e # es) st = run es (step e st)"
  by (simp add: run_def)

lemma run_append: "run (es @ es') st = run es' (run es st)"
  by (simp add: run_def)

lemma settleAll_Nil: "settleAll out [] st = st"
  by (simp add: settleAll_def)

lemma settleAll_Cons: "settleAll out (p # ps) st = settleAll out ps (settle p out st)"
  by (simp add: settleAll_def)

lemma settleAll_shape:
  "\<exists>rs. settleAll out ps st =
     st\<lparr>settled := settled st @ map (\<lambda>p. (p, out)) ps,
        microtasks := microtasks st @ map Resume rs\<rparr>"
proof (induction ps arbitrary: st)
  case Nil
  have "st = st\<lparr>settled := settled st @ map (\<lambda>p. (p, out)) [],
        microtasks := microtasks st @ map Resume []\<rparr>" by simp
  then show ?case unfolding settleAll_Nil by blast
next
  case (Cons p ps)
  obtain rs where rs: "settleAll out ps (settle p out st) =
     (settle p out st)\<lparr>settled := settled (settle p out st) @ map (\<lambda>p. (p, out)) ps,
        microtasks := microtasks (settle p out st) @ map Resume rs\<rparr>"
    using Cons by blast
  show ?case
  proof (cases "map_of (settled st) p = None \<and> map_of (awaiting st) p \<noteq> None")
    case True
    then have "settleAll out (p # ps) st =
       st\<lparr>settled := settled st @ map (\<lambda>p. (p, out)) (p # ps),
        microtasks := microtasks st @ map Resume (p # rs)\<rparr>"
      unfolding settleAll_Cons rs by (simp add: settle_def enqueue_def)
    then show ?thesis by blast
  next
    case False
    then have "settleAll out (p # ps) st =
       st\<lparr>settled := settled st @ map (\<lambda>p. (p, out)) (p # ps),
        microtasks := microtasks st @ map Resume rs\<rparr>"
      unfolding settleAll_Cons rs by (auto simp add: settle_def enqueue_def)
    then show ?thesis by blast
  qed
qed

lemma onSandboxClose_settleAll:
  "onSandboxClose st =
     (settleAll (Reject (SandboxError (VStr (js ''PipeFromSandbox is closed''))))
        (pendingReads st) ((stopThrottle st)\<lparr>isReadClosed := True\<rparr>))\<lparr>pendingReads := []\<rparr>"
  by (simp add: onSandboxClose_def settleAll_def Let_def stopThrottle_def split: option.splits)

lemma onSandboxClose_shape:
  "\<exists>rs. onSandboxClose st =
     st\<lparr>throttle := map_option Suc (throttle st), isReadClosed := True, pendingReads := [],
        settled := settled st @ map (\<lambda>p. (p, Reject (SandboxError (VStr (js ''PipeFromSandbox is closed''))))) (pendingReads st),
        microtasks := microtasks st @ map Resume rs\<rparr>"
proof -
  obtain rs where "settleAll (Reject (SandboxError (VStr (js ''PipeFromSandbox is closed''))))
        (pendingReads st) ((stopThrottle st)\<lparr>isReadClosed := True\<rparr>) =
      ((stopThrottle st)\<lparr>isReadClosed := True\<rparr>)\<lparr>settled := settled ((stopThrottle st)\<lparr>isReadClosed := True\<rparr>) @ map (\<lambda>p. (p, Reject (SandboxError (VStr (js ''PipeFromSandbox is closed''))))) (pendingReads st),
        microtasks := microtasks ((stopThrottle st)\<lparr>isReadClosed := True\<rparr>) @ map Resume rs\<rparr>"
    using settleAll_shape by blast
  then have "onSandboxClose st =
     st\<lparr>throttle := map_option Suc (throttle st), isReadClosed := True, pendingReads := [],
        settled := settled st @ map (\<lambda>p. (p, Reject (SandboxError (VStr (js ''PipeFromSandbox is closed''))))) (pendingReads st),
        microtasks := microtasks st @ map Resume rs\<rparr>"
    unfolding onSandboxClose_settleAll by (simp add: stopThrottle_def split: option.splits)
  then show ?thesis by blast
qed

lemma exampleSandbox_fields:
  "pendingReads exampleSandbox = []" "isReadClosed exampleSandbox = False"
  "isWriteClosed exampleSandbox = False" "microtasks exampleSandbox = []"
  "settled exampleSandbox = []" "written exampleSandbox = []" "ended exampleSandbox = 0"
  "nextPromise exampleSandbox = 0" "awaiting exampleSandbox = []" "recordBuffers exampleSandbox = False"
  "exportedFunctions exampleSandbox = Map.empty" "throttle exampleSandbox = Some 0"
  "timers exampleSandbox = []" "kills exampleSandbox = 0" "returned exampleSandbox = []"
  "childListeners exampleSandbox = []" "nextTimer exampleSandbox = 0" "logTimes exampleSandbox = False"
  "uncaught exampleSandbox = []"
  by (simp_all add: exampleSandbox_def create_def createOptions_def NSandbox_def noOptions_def exampleHost_def Let_def js_def)

section \<open>Responses meet the pending calls in order\<close>

lemma zip_take_length: "zip (take (length ys) xs) ys = zip xs ys"
proof (induction ys arbitrary: xs)
  case Nil
  then show ?case by simp
next
  case (Cons y ys)
  then show ?case by (cases xs) simp_all
qed

lemma codes_distinct [simp]:
  "CALL \<noteq> DATA" "CALL \<noteq> EXC" "DATA \<noteq> EXC" "DATA \<noteq> CALL" "EXC \<noteq> CALL" "EXC \<noteq> DATA"
  by (simp_all add: CALL_def DATA_def EXC_def)

lemma completions_append:
  "completions ps (rs1 @ rs2) = completions ps rs1 @ completions (drop (length rs1) ps) rs2"
  by (simp add: completions_def zip_append2 zip_take_length)

lemma completions_Nil [simp]: "completions ps [] = []" "completions [] rs = []"
  by (simp_all add: completions_def)

lemma onSandboxMsg_response:
  "msgCode \<noteq> CALL \<Longrightarrow>
     pendingReads (snd (onSandboxMsg st msgCode data)) = drop 1 (pendingReads st)
     \<and> settled (snd (onSandboxMsg st msgCode data)) =
         settled st @ completions (pendingReads st) [(msgCode, data)]
     \<and> recordBuffers (snd (onSandboxMsg st msgCode data)) = recordBuffers st"
  by (cases "pendingReads st") (simp_all add: onSandboxMsg_alt)

lemma onSandboxMsg_call:
  "\<not> throwing (CALL, data) \<Longrightarrow>
     pendingReads (snd (onSandboxMsg st CALL data)) = pendingReads st
     \<and> settled (snd (onSandboxMsg st CALL data)) = settled st
     \<and> recordBuffers (snd (onSandboxMsg st CALL data)) = recordBuffers st"
  by (simp add: onSandboxMsg_alt)

lemma onSandboxData_frames:
  "map frame vs = map Some fs \<Longrightarrow> \<forall>f \<in> set fs. \<not> throwing f \<Longrightarrow>
     pendingReads (onSandboxData st vs) = drop (length (responses fs)) (pendingReads st)
     \<and> settled (onSandboxData st vs) = settled st @ completions (pendingReads st) (responses fs)"
proof (induction vs arbitrary: st fs)
  case Nil
  then show ?case by (simp add: responses_def)
next
  case (Cons v vs)
  then obtain f fs' where fs: "fs = f # fs'" "frame v = Some f" "map frame vs = map Some fs'"
    by (cases fs) auto
  obtain c d where f: "f = (c, d)" by (cases f)
  have ok: "\<not> throwing (c, d)" "\<forall>f \<in> set fs'. \<not> throwing f"
    using Cons.prems(2) fs(1) f by simp_all
  let ?st1 = "if recordBuffers st then st\<lparr>recordedOutput := recordedOutput st @ [v]\<rparr> else st"
  have st1: "pendingReads ?st1 = pendingReads st" "settled ?st1 = settled st" by simp_all
  have step: "onSandboxData st (v # vs) = onSandboxData (snd (onSandboxMsg ?st1 c d)) vs"
    using fs(2) f ok(1) by (simp only: onSandboxData_Cons Let_def) simp
  note IH = Cons.IH [OF fs(3) ok(2), of "snd (onSandboxMsg ?st1 c d)"]
  show ?case
  proof (cases "c = CALL")
    case True
    then show ?thesis
      unfolding step using IH onSandboxMsg_call [of d ?st1] ok(1) st1
      by (simp add: fs f responses_def)
  next
    case False
    have r: "responses fs = (c, d) # responses fs'"
      using False by (simp add: fs f responses_def)
    show ?thesis
      unfolding step r using IH onSandboxMsg_response [OF False, of ?st1 d] st1
        completions_append [of "pendingReads st" "[(c, d)]" "responses fs'"]
      by simp
  qed
qed

lemma step_FromData_frames:
  assumes "map frame vs = map Some fs" and "\<forall>f \<in> set fs. \<not> throwing f"
  shows "pendingReads (step (FromData vs) st) = drop (length (responses fs)) (pendingReads st)"
    and "settled (step (FromData vs) st) = settled st @ completions (pendingReads st) (responses fs)"
  using onSandboxData_frames [OF assms, of st] same_core_runMicrotasks [of "onSandboxData st vs"]
  by (simp_all add: step_def same_core_def)


lemma run_FromData_frames:
  "map (map frame) chunks = map (map Some) fss \<Longrightarrow> \<forall>f \<in> set (concat fss). \<not> throwing f \<Longrightarrow>
     pendingReads (run (map FromData chunks) st) =
       drop (length (responses (concat fss))) (pendingReads st)
     \<and> settled (run (map FromData chunks) st) =
       settled st @ completions (pendingReads st) (responses (concat fss))"
proof (induction chunks arbitrary: st fss)
  case Nil
  then show ?case by (simp add: responses_def)
next
  case (Cons vs chunks)
  then obtain fs fss' where fss: "fss = fs # fss'" "map frame vs = map Some fs"
      "map (map frame) chunks = map (map Some) fss'"
    by (cases fss) auto
  have ok: "\<forall>f \<in> set fs. \<not> throwing f" "\<forall>f \<in> set (concat fss'). \<not> throwing f"
    using Cons.prems(2) fss(1) by auto
  have r: "responses (concat fss) = responses fs @ responses (concat fss')"
    by (simp add: fss responses_def)
  show ?case
    using Cons.IH [OF fss(3) ok(2), of "step (FromData vs) st"]
      step_FromData_frames [OF fss(2) ok(1), of st]
    by (simp add: r completions_append add.commute)
qed

lemma step_CallPy_open:
  assumes "\<not> isReadClosed st"
  shows "pendingReads (step (CallPy f a) st) = pendingReads st @ [nextPromise st]"
    and "nextPromise (step (CallPy f a) st) = Suc (nextPromise st)"
    and "settled (step (CallPy f a) st) = settled st"
    and "\<not> isReadClosed (step (CallPy f a) st)"
  using assms same_core_runMicrotasks [of "snd (pyCall st f a)"]
  by (simp_all add: step_def same_core_def pyCall_alt)

lemma run_CallPy_open:
  "\<not> isReadClosed st \<Longrightarrow>
     pendingReads (run (map (\<lambda>c. CallPy (fst c) (snd c)) calls) st) =
       pendingReads st @ [nextPromise st ..< nextPromise st + length calls]
     \<and> settled (run (map (\<lambda>c. CallPy (fst c) (snd c)) calls) st) = settled st"
proof (induction calls arbitrary: st)
  case Nil
  then show ?case by simp
next
  case (Cons c calls)
  have "[nextPromise st ..< nextPromise st + length (c # calls)] =
        nextPromise st # [Suc (nextPromise st) ..< Suc (nextPromise st) + length calls]"
    using upt_conv_Cons [of "nextPromise st" "nextPromise st + length (c # calls)"] by simp
  then show ?case
    using Cons.IH [of "step (CallPy (fst c) (snd c)) st"] step_CallPy_open [OF Cons.prems]
    by simp
qed

lemma completions_fst:
  "\<forall>r \<in> set rs. fst r = DATA \<or> fst r = EXC \<Longrightarrow>
     map fst (completions ps rs) = take (length rs) ps"
proof (induction rs arbitrary: ps)
  case Nil
  then show ?case by simp
next
  case (Cons r rs)
  show ?case
  proof (cases ps)
    case Nil
    then show ?thesis by simp
  next
    case (Cons p ps')
    obtain c d where r: "r = (c, d)" by (cases r)
    have "completions ps (r # rs) = completion (p, c, d) @ completions ps' rs"
      by (simp add: completions_def Cons r)
    then show ?thesis using Cons.prems Cons.IH [of ps'] Cons
      by (auto simp: r completion_def)
  qed
qed

lemma completions_which:
  "map fst (completions ps rs) =
     map fst (filter (\<lambda>x. fst (snd x) = DATA \<or> fst (snd x) = EXC) (zip ps rs))"
proof (induction rs arbitrary: ps)
  case Nil
  then show ?case by simp
next
  case (Cons r rs)
  show ?case
  proof (cases ps)
    case Nil
    then show ?thesis by simp
  next
    case (Cons p ps')
    obtain c d where r: "r = (c, d)" by (cases r)
    have "completions ps (r # rs) = completion (p, c, d) @ completions ps' rs"
      by (simp add: completions_def Cons r)
    then show ?thesis using Cons.IH [of ps'] Cons
      by (auto simp: r completion_def)
  qed
qed

text \<open>
  Claim C1, as the code has it. Let any number of calls be issued with \<open>pyCall\<close> while
  the channel from the sandbox is open, and let the inbound bytes then arrive in chunks
  that decode to the frames \<open>fss\<close>, one list per chunk, none of them a call whose function
  name cannot be converted to a string (on such a frame, as on a decoded \<open>null\<close>, the
  listener throws). The calls are appended to the pending calls in the order of issue.
  Afterwards the \<open>k\<close>-th frame that is not a call has removed the \<open>k\<close>-th pending call,
  the oldest one at that moment. The completions made are, in that order, success with the
  payload for DATA and failure with the payload for EXC; a frame with another code has
  removed its pending call and completed nothing. So the calls completed are those that
  met a DATA or EXC frame, and when every response is DATA or EXC they are the oldest
  pending calls in the order of issue. The result depends on the frames only, not on
  their payloads' size or on how they are split into chunks.
\<close>

theorem fifo_correlation:
  assumes "\<not> isReadClosed st"
      and "map (map frame) chunks = map (map Some) fss"
      and "\<forall>f \<in> set (concat fss). \<not> throwing f"
  shows "let st1 = run (map (\<lambda>c. CallPy (fst c) (snd c)) calls) st;
             st2 = run (map FromData chunks) st1;
             rs = responses (concat fss)
         in pendingReads st1 = pendingReads st @ [nextPromise st ..< nextPromise st + length calls]
          \<and> settled st1 = settled st
          \<and> pendingReads st2 = drop (length rs) (pendingReads st1)
          \<and> settled st2 = settled st1 @ completions (pendingReads st1) rs
          \<and> map fst (completions (pendingReads st1) rs) =
              map fst (filter (\<lambda>x. fst (snd x) = DATA \<or> fst (snd x) = EXC)
                         (zip (pendingReads st1) rs))
          \<and> ((\<forall>r \<in> set rs. fst r = DATA \<or> fst r = EXC) \<longrightarrow>
               map fst (completions (pendingReads st1) rs) = take (length rs) (pendingReads st1))"
  using run_CallPy_open [OF assms(1), of calls]
    run_FromData_frames [OF assms(2,3), of "run (map (\<lambda>c. CallPy (fst c) (snd c)) calls) st"]
    completions_fst [of "responses (concat fss)"]
    completions_which [of _ "responses (concat fss)"]
  by (simp add: Let_def)

theorem fifo_correlation_witness:
  "\<not> isReadClosed exampleSandbox
   \<and> map (map frame) [[VArr [DATA, VNum 5]],
                      [VArr [CALL, VArr [VStr (js ''f'')]], VArr [EXC, VStr (js ''boom'')]]]
       = map (map Some) [[(DATA, VNum 5)],
                         [(CALL, VArr [VStr (js ''f'')]), (EXC, VStr (js ''boom''))]]
   \<and> list_all (\<lambda>f. throwing f = False)
        (concat [[(DATA, VNum 5)], [(CALL, VArr [VStr (js ''f'')]), (EXC, VStr (js ''boom''))]])
   \<and> (let st1 = run [CallPy (js ''add'') [VNum 2, VNum 3], CallPy (js ''boom'') []] exampleSandbox;
           st2 = run [FromData [VArr [DATA, VNum 5]],
                      FromData [VArr [CALL, VArr [VStr (js ''f'')]],
                                VArr [EXC, VStr (js ''boom'')]]] st1
       in pendingReads st1 = [0, 1] \<and> pendingReads st2 = []
        \<and> settled st2 = [(0, Resolve (VNum 5)), (1, Reject (SandboxError (VStr (js ''boom''))))])"
proof -
  have opened: "\<not> isReadClosed exampleSandbox"
    by (simp add: exampleSandbox_fields)
  have frames:
    "map (map frame) [[VArr [DATA, VNum 5]],
                      [VArr [CALL, VArr [VStr (js ''f'')]], VArr [EXC, VStr (js ''boom'')]]]
       = map (map Some) [[(DATA, VNum 5)],
                         [(CALL, VArr [VStr (js ''f'')]), (EXC, VStr (js ''boom''))]]"
    by (simp add: frame_def)
  have quiet: "\<forall>f \<in> set (concat [[(DATA, VNum 5)],
      [(CALL, VArr [VStr (js ''f'')]), (EXC, VStr (js ''boom''))]]). \<not> throwing f"
    by (simp add: throwing_def)
  have upt: "[0 ..< Suc (Suc 0)] = [0, 1]"
    by (simp add: upt_rec)
  show ?thesis
    using opened frames quiet
      fifo_correlation [OF opened frames quiet,
        of "[(js ''add'', [VNum 2, VNum 3]), (js ''boom'', [])]"]
    by (simp add: Let_def exampleSandbox_fields responses_def completions_def completion_def upt)
qed

section \<open>The channel from the sandbox closes\<close>

lemma step_at_rest: "microtasks (handle e st) = [] \<Longrightarrow> step e st = handle e st"
  by (simp add: step_def runMicrotasks_Nil)

lemma settleAll_unchanged:
  "pendingReads (settleAll out ps st) = pendingReads st"
  "isReadClosed (settleAll out ps st) = isReadClosed st"
  "isWriteClosed (settleAll out ps st) = isWriteClosed st"
  "throttle (settleAll out ps st) = throttle st"
  "ended (settleAll out ps st) = ended st"
  "kills (settleAll out ps st) = kills st"
  "timers (settleAll out ps st) = timers st"
  "written (settleAll out ps st) = written st"
  "logs (settleAll out ps st) = logs st"
  "uncaught (settleAll out ps st) = uncaught st"
  "settled (settleAll out ps st) = settled st @ map (\<lambda>p. (p, out)) ps"
proof -
  obtain rs where eq: "settleAll out ps st =
     st\<lparr>settled := settled st @ map (\<lambda>p. (p, out)) ps,
        microtasks := microtasks st @ map Resume rs\<rparr>"
    using settleAll_shape by blast
  show "pendingReads (settleAll out ps st) = pendingReads st"
    "isReadClosed (settleAll out ps st) = isReadClosed st"
    "isWriteClosed (settleAll out ps st) = isWriteClosed st"
    "throttle (settleAll out ps st) = throttle st"
    "ended (settleAll out ps st) = ended st"
    "kills (settleAll out ps st) = kills st"
    "timers (settleAll out ps st) = timers st"
    "written (settleAll out ps st) = written st"
    "logs (settleAll out ps st) = logs st"
    "uncaught (settleAll out ps st) = uncaught st"
    "settled (settleAll out ps st) = settled st @ map (\<lambda>p. (p, out)) ps"
    by (simp_all add: eq)
qed

lemma onSandboxClose_effect:
  "pendingReads (onSandboxClose st) = []"
  "isReadClosed (onSandboxClose st)"
  "settled (onSandboxClose st) = settled st @
     map (\<lambda>p. (p, Reject (SandboxError (VStr (js ''PipeFromSandbox is closed''))))) (pendingReads st)"
proof -
  obtain rs where eq: "onSandboxClose st =
     st\<lparr>throttle := map_option Suc (throttle st), isReadClosed := True, pendingReads := [],
        settled := settled st @ map (\<lambda>p. (p, Reject (SandboxError (VStr (js ''PipeFromSandbox is closed''))))) (pendingReads st),
        microtasks := microtasks st @ map Resume rs\<rparr>"
    using onSandboxClose_shape by blast
  show "pendingReads (onSandboxClose st) = []" "isReadClosed (onSandboxClose st)"
  "settled (onSandboxClose st) = settled st @
     map (\<lambda>p. (p, Reject (SandboxError (VStr (js ''PipeFromSandbox is closed''))))) (pendingReads st)"
    by (simp_all add: eq)
qed

lemma isReadClosed_onSandboxMsg:
  "isReadClosed (snd (onSandboxMsg st c d)) = isReadClosed st"
  by (cases "throwing (c, d)") (simp_all add: onSandboxMsg_throwing onSandboxMsg_alt)

lemma isReadClosed_onSandboxData: "isReadClosed (onSandboxData st vs) = isReadClosed st"
proof (induction vs arbitrary: st)
  case Nil
  then show ?case by simp
next
  case (Cons v vs)
  show ?case
    unfolding onSandboxData_Cons Let_def
    by (simp add: Cons.IH isReadClosed_onSandboxMsg split: option.splits)
qed

lemma isReadClosed_handle:
  assumes "isReadClosed st"
  shows "isReadClosed (handle e st)"
proof (cases e)
  case (CallPy f a)
  then show ?thesis using assms by (simp add: pyCall_alt)
next
  case CallShutdown
  then show ?thesis using assms by (simp add: shutdown_general)
next
  case (FromData vs)
  then show ?thesis using assms by (simp add: isReadClosed_onSandboxData)
next
  case FromEnd
  then show ?thesis by (simp add: onSandboxClose_effect)
next
  case (FromError err)
  then show ?thesis by (simp add: onSandboxClose_effect)
next
  case (ToError err)
  then show ?thesis using assms by (simp add: log_def)
next
  case (ChildExit c s)
  then show ?thesis using assms by (simp add: settleAll_unchanged)
next
  case (ChildClose c s)
  then show ?thesis using assms
    by (simp add: settleAll_unchanged onExit_def close_alt log_def)
next
  case (ChildError err)
  then show ?thesis using assms
    by (simp add: settleAll_unchanged onError_def close_alt log_def)
next
  case (TimerFires t)
  then show ?thesis using assms by (simp add: timerFires_alt)
next
  case (ExportSettles k r)
  then show ?thesis using assms by (simp add: enqueue_def)
qed

lemma isReadClosed_step: "isReadClosed st \<Longrightarrow> isReadClosed (step e st)"
  using isReadClosed_handle [of st e] same_core_runMicrotasks [of "handle e st"]
  by (simp add: step_def same_core_def)

lemma isReadClosed_run: "isReadClosed st \<Longrightarrow> isReadClosed (run es st)"
  by (induction es arbitrary: st) (simp_all add: isReadClosed_step)

lemma twoCalls_fields:
  "pendingReads twoCalls = [0, 1]" "settled twoCalls = []" "isReadClosed twoCalls = False"
  "childListeners twoCalls = []" "throttle twoCalls = Some 0" "isWriteClosed twoCalls = False"
  "ended twoCalls = 0"
proof -
  let ?s1 = "step (CallPy (js ''add'') [VNum 2, VNum 3]) exampleSandbox"
  have 1: "same_core (handle (CallPy (js ''add'') [VNum 2, VNum 3]) exampleSandbox) ?s1"
    by (simp add: step_def same_core_runMicrotasks)
  have 2: "same_core (handle (CallPy (js ''boom'') []) ?s1) twoCalls"
    by (simp add: twoCalls_def step_def same_core_runMicrotasks)
  have s1: "pendingReads ?s1 = [0]" "settled ?s1 = []" "isReadClosed ?s1 = False"
    "childListeners ?s1 = []" "throttle ?s1 = Some 0" "isWriteClosed ?s1 = False"
    "ended ?s1 = 0" "nextPromise ?s1 = 1"
    using 1 by (simp_all add: same_core_def pyCall_alt exampleSandbox_fields)
  show "pendingReads twoCalls = [0, 1]" "settled twoCalls = []" "isReadClosed twoCalls = False"
    "childListeners twoCalls = []" "throttle twoCalls = Some 0" "isWriteClosed twoCalls = False"
    "ended twoCalls = 0"
    using 2 by (simp_all add: same_core_def pyCall_alt s1)
qed

text \<open>
  Claim C3. When the stream from the sandbox ends or errors, every pending call is failed
  with the error "PipeFromSandbox is closed", in the order of the registry, and the
  registry is left empty. From then on, whatever else happens to the controller, every
  \<open>pyCall\<close> throws "PipeToSandbox is closed" to its caller at once and leaves the
  controller as it was: no promise is made that could hang or succeed.
\<close>

theorem closed_channel_draining:
  assumes "e = FromEnd \<or> e = FromError err"
  shows "pendingReads (step e st) = []
     \<and> settled (step e st) = settled st @
         map (\<lambda>p. (p, Reject (SandboxError (VStr (js ''PipeFromSandbox is closed'')))))
           (pendingReads st)
     \<and> (\<forall>es funcName varArgs.
           pyCall (run es (step e st)) funcName varArgs =
             (Inl (SandboxError (VStr (js ''PipeToSandbox is closed''))), run es (step e st)))"
proof -
  have h: "handle e st = onSandboxClose st \<or>
           handle e st = onSandboxClose (log (Sandbox_error_reading err) st)"
    using assms by auto
  have core: "same_core (handle e st) (step e st)"
    by (simp add: step_def same_core_runMicrotasks)
  have 1: "pendingReads (step e st) = []"
    using h core onSandboxClose_effect(1) by (auto simp: same_core_def)
  have 2: "settled (step e st) = settled st @
         map (\<lambda>p. (p, Reject (SandboxError (VStr (js ''PipeFromSandbox is closed'')))))
           (pendingReads st)"
    using h core onSandboxClose_effect(3) [of st]
      onSandboxClose_effect(3) [of "log (Sandbox_error_reading err) st"]
    by (auto simp: same_core_def log_def)
  have "isReadClosed (step e st)"
    using h core onSandboxClose_effect(2) by (auto simp: same_core_def)
  then have 3: "isReadClosed (run es (step e st))" for es
    by (rule isReadClosed_run)
  have "pyCall (run es (step e st)) funcName varArgs =
             (Inl (SandboxError (VStr (js ''PipeToSandbox is closed''))), run es (step e st))"
    for es funcName varArgs
    using 3 [of es] by (simp add: pyCall_def sendData_def)
  with 1 2 show ?thesis by blast
qed

theorem closed_channel_draining_witness:
  "(FromEnd = FromEnd \<or> FromEnd = FromError [])
   \<and> pendingReads (step FromEnd twoCalls) = []
   \<and> settled (step FromEnd twoCalls) =
       [(0, Reject (SandboxError (VStr (js ''PipeFromSandbox is closed'')))),
        (1, Reject (SandboxError (VStr (js ''PipeFromSandbox is closed''))))]
   \<and> pyCall (run [CallShutdown] (step FromEnd twoCalls)) (js ''add'') [] =
       (Inl (SandboxError (VStr (js ''PipeToSandbox is closed''))),
        run [CallShutdown] (step FromEnd twoCalls))"
proof -
  have e: "FromEnd = FromEnd \<or> FromEnd = FromError []"
    by simp
  note drained = closed_channel_draining [OF e, of twoCalls]
  from drained have later:
    "pyCall (run [CallShutdown] (step FromEnd twoCalls)) (js ''add'') [] =
       (Inl (SandboxError (VStr (js ''PipeToSandbox is closed''))),
        run [CallShutdown] (step FromEnd twoCalls))"
    by blast
  from drained have now:
    "pendingReads (step FromEnd twoCalls) = []"
    "settled (step FromEnd twoCalls) =
       [(0, Reject (SandboxError (VStr (js ''PipeFromSandbox is closed'')))),
        (1, Reject (SandboxError (VStr (js ''PipeFromSandbox is closed''))))]"
    by (simp_all add: twoCalls_fields)
  show ?thesis
    using e now later by blast
qed

text \<open>
  Claim C1 as stated fails. Two calls are pending and two frames that are not calls
  arrive in order, the first with the code 7. Both pending calls have been removed, but
  the first has not been completed: the only completion made is that of the second call,
  by the second frame.
\<close>

theorem invalid_code_breaks_correlation:
  "pendingReads (run [FromData [VArr [VNum 7, VNull], VArr [DATA, VNum 5]]] twoCalls) = []
   \<and> settled (run [FromData [VArr [VNum 7, VNull], VArr [DATA, VNum 5]]] twoCalls) =
       [(1, Resolve (VNum 5))]"
proof -
  have frames: "map frame [VArr [VNum 7, VNull], VArr [DATA, VNum 5]] =
      map Some [(VNum 7, VNull), (DATA, VNum 5)]"
    by simp
  have quiet: "\<forall>f \<in> set [(VNum 7, VNull), (DATA, VNum 5)]. \<not> throwing f"
    by (simp add: throwing_def CALL_def)
  have codes: "VNum 7 \<noteq> CALL" "VNum 7 \<noteq> DATA" "VNum 7 \<noteq> EXC"
    by (simp_all add: CALL_def DATA_def EXC_def)
  show ?thesis
    using step_FromData_frames [OF frames quiet, of twoCalls]
    by (simp add: twoCalls_fields responses_def completions_def completion_def codes)
qed

section \<open>Calls on a closed channel\<close>

text \<open>
  Claim C9. Once the channel from the sandbox has closed, \<open>pyCall\<close> throws a SandboxError
  to its caller and leaves the controller as it was: nothing is written, no promise is
  made, and no pending call is added.
\<close>

theorem pyCall_closed_channel:
  "isReadClosed st \<Longrightarrow>
     pyCall st funcName varArgs = (Inl (SandboxError (VStr (js ''PipeToSandbox is closed''))), st)"
  by (simp add: pyCall_def sendData_def)

theorem pyCall_closed_channel_witness:
  "isReadClosed (onSandboxClose exampleSandbox) \<and>
   pyCall (onSandboxClose exampleSandbox) (js ''f'') [VNum 1] =
     (Inl (SandboxError (VStr (js ''PipeToSandbox is closed''))), onSandboxClose exampleSandbox)"
proof -
  have closed: "isReadClosed (onSandboxClose exampleSandbox)"
    using onSandboxClose_shape [of exampleSandbox] by auto
  show ?thesis
    using closed pyCall_closed_channel [OF closed, of "js ''f''" "[VNum 1]"] by simp
qed

section \<open>The environment of the spawned process\<close>

lemma replace_first_takeWhile:
  "replace_first (\<lambda>c. \<not> P c) s = takeWhile P s @ drop 1 (dropWhile P s)"
  by (induction s) simp_all

lemma DOC_URL_not_PYTHONPATH: "js ''PYTHONPATH'' \<noteq> js ''DOC_URL''"
  by (simp add: js_def)

text \<open>
  Claim C10. For every host, flavor and options, the environment \<open>create\<close> gives the
  spawned process has \<open>DOC_URL\<close> set to \<open>options.docUrl\<close> (the empty string when it is
  absent) without its first code unit outside \<open>[-a-zA-Z0-9_:/?&.]\<close>: the allowed prefix,
  then everything after the first disallowed code unit, allowed or not. For the
  \<open>pynbox\<close> flavor the same value is also passed to \<open>sel_ldr\<close> after \<open>-E\<close>.
\<close>

theorem create_DOC_URL:
  "spawnEnv (fst (create h fl options)) = Some (createEnv h fl options)
   \<and> map_of (createEnv h fl options) (js ''DOC_URL'') =
       Some (takeWhile docUrlChar (or_else (docUrl options) [])
             @ drop 1 (dropWhile docUrlChar (or_else (docUrl options) [])))
   \<and> (fl = pynbox \<longrightarrow>
        js ''DOC_URL='' @ takeWhile docUrlChar (or_else (docUrl options) [])
             @ drop 1 (dropWhile docUrlChar (or_else (docUrl options) []))
          \<in> set (argv (fst (create h fl options))))"
proof -
  have 1: "spawnEnv (fst (create h fl options)) = Some (createEnv h fl options)"
    by (simp add: create_def spawn_def createOptions_def Let_def)
  have 2: "map_of (createEnv h fl options) (js ''DOC_URL'') =
       Some (takeWhile docUrlChar (or_else (docUrl options) [])
             @ drop 1 (dropWhile docUrlChar (or_else (docUrl options) [])))"
    using DOC_URL_not_PYTHONPATH by (simp add: createEnv_def replace_first_takeWhile)
  have 3: "js ''DOC_URL='' @ takeWhile docUrlChar (or_else (docUrl options) [])
             @ drop 1 (dropWhile docUrlChar (or_else (docUrl options) []))
          \<in> set (argv (fst (create h fl options)))" if "fl = pynbox"
  proof -
    have "js ''DOC_URL='' = js ''DOC_URL'' @ js ''=''" by (simp add: js_def)
    then show ?thesis using that
      by (simp add: create_def spawn_def createOptions_def createEnv_def Let_def
            replace_first_takeWhile)
  qed
  show ?thesis using 1 2 3 by blast
qed

theorem create_DOC_URL_witness:
  "map_of (createEnv exampleHost pynbox (noOptions\<lparr>docUrl := Some (js ''a b c'')\<rparr>)) (js ''DOC_URL'')
     = Some (js ''ab c'')
   \<and> js ''DOC_URL=ab c'' \<in> set (argv (fst (create exampleHost pynbox (noOptions\<lparr>docUrl := Some (js ''a b c'')\<rparr>))))"
proof -
  have u: "or_else (docUrl (noOptions\<lparr>docUrl := Some (js ''a b c'')\<rparr>)) [] = js ''a b c''"
    by (simp add: js_def)
  have t: "takeWhile docUrlChar (js ''a b c'') @ drop 1 (dropWhile docUrlChar (js ''a b c'')) = js ''ab c''"
    by (simp add: js_def docUrlChar_def code_unit_def)
  have c: "js ''DOC_URL='' @ js ''ab c'' = js ''DOC_URL=ab c''" by (simp add: js_def)
  show ?thesis
    using create_DOC_URL [of exampleHost pynbox "noOptions\<lparr>docUrl := Some (js ''a b c'')\<rparr>"]
    unfolding u t by (simp add: c)
qed

section \<open>Calls from the sandbox\<close>

text \<open>
  Claim C4. The claim is that a call from the sandbox naming a function that is not in the
  table of exported functions is answered with one EXC frame. The name \<open>toString\<close> is
  not exported by the controller that \<open>create\<close> returns, which exports nothing; the
  lookup finds the function every object inherits, calls it, and the frame written is
  DATA with its result.
\<close>

theorem inherited_name_is_called:
  "written (step (FromData [VArr [CALL, VArr [VStr (js ''toString'')]]]) exampleSandbox) =
     [(DATA, VStr (js ''[object Undefined]''))]"
proof -
  have p: "get_property Map.empty (js ''toString'') =
      Function (\<lambda>args. Returns (VStr (js ''[object Undefined]'')))"
    by (simp add: get_property_def Object_prototype_def js_def)
  have q: "\<not> throwing (CALL, VArr [VStr (js ''toString'')])"
    by (simp add: throwing_def)
  show ?thesis
    by (simp add: step_def onSandboxData_Cons q onSandboxMsg_alt runMicrotasks.simps
        exportLookup_def p exportRespond_alt enqueue_def exampleSandbox_fields Let_def)
qed

text \<open>
  For a name that the table has neither as its own nor as an inherited property, on a
  controller at rest with both streams open, exactly one frame is written, the EXC frame
  naming the function; the pending calls and their promises are not touched.
\<close>

lemma unknown_export_answered:
  assumes "js_toString fname = Some name"
      and "get_property (exportedFunctions st) name = Absent"
      and "microtasks st = []" and "\<not> isReadClosed st" and "ended st = 0"
  shows "step (FromData [VArr [CALL, VArr (fname # xs)]]) st =
     st\<lparr>recordedOutput := (if recordBuffers st
                             then recordedOutput st @ [VArr [CALL, VArr (fname # xs)]]
                             else recordedOutput st),
        logs := logs st @ [Sandbox_got_call name (length xs)],
        recordedInput := (if recordBuffers st
                            then recordedInput st @ [(EXC, VStr (js ''Error: No such exported function: '' @ name))]
                            else recordedInput st),
        written := written st @ [(EXC, VStr (js ''Error: No such exported function: '' @ name))]\<rparr>"
proof -
  have q: "\<not> throwing (CALL, VArr (fname # xs))"
    using assms(1) by (simp add: throwing_def)
  show ?thesis
    using assms
    by (cases "recordBuffers st")
       (simp_all add: step_def onSandboxData_Cons q onSandboxMsg_alt runMicrotasks.simps
          exportLookup_def exportRespond_alt enqueue_def Let_def)
qed

text \<open>
  Claim C5, as the code has it. A call frame whose payload is not an array, or is the
  empty array, is logged as "Sandbox invalid call from the sandbox" and nothing else
  happens: no frame is written in answer, no pending call is touched, nothing is thrown.
\<close>

theorem invalid_call_only_logged:
  assumes "\<not> isArray data \<or> elements data = []"
      and "microtasks st = []"
  shows "step (FromData [VArr [CALL, data]]) st =
           log Sandbox_invalid_call
             (if recordBuffers st
              then st\<lparr>recordedOutput := recordedOutput st @ [VArr [CALL, data]]\<rparr> else st)"
proof -
  have h: "handle (FromData [VArr [CALL, data]]) st =
           log Sandbox_invalid_call
             (if recordBuffers st
              then st\<lparr>recordedOutput := recordedOutput st @ [VArr [CALL, data]]\<rparr> else st)"
  proof -
    have q: "\<not> throwing (CALL, data)"
      using assms(1) by (auto simp: throwing_def)
    show ?thesis
      using assms(1) by (auto simp: onSandboxData_Cons q onSandboxMsg_def Let_def)
  qed
  have "microtasks (handle (FromData [VArr [CALL, data]]) st) = []"
    unfolding h using assms(2) by (simp add: log_def)
  then show ?thesis
    using h by (simp add: step_at_rest)
qed

theorem invalid_call_only_logged_witness:
  "isArray (VNum 3) = False
   \<and> microtasks exampleSandbox = []
   \<and> step (FromData [VArr [CALL, VNum 3]]) exampleSandbox = log Sandbox_invalid_call exampleSandbox"
proof -
  have a: "\<not> isArray (VNum 3) \<or> elements (VNum 3) = []" by simp
  have b: "microtasks exampleSandbox = []" by (simp add: exampleSandbox_fields)
  show ?thesis
    using b invalid_call_only_logged [OF a b] by (simp add: exampleSandbox_fields)
qed

text \<open>
  Claim C5 as stated fails: after a call frame with the payload \<open>3\<close>, and after one
  with the empty array, no frame at all has been written to the sandbox.
\<close>

theorem invalid_call_not_answered:
  "written (step (FromData [VArr [CALL, VNum 3]]) exampleSandbox) = []
   \<and> written (step (FromData [VArr [CALL, VArr []]]) exampleSandbox) = []"
proof -
  have q: "\<not> throwing (CALL, VNum 3)" "\<not> throwing (CALL, VArr [])"
    by (simp_all add: throwing_def)
  show ?thesis
    by (simp add: step_def onSandboxData_Cons q onSandboxMsg_alt runMicrotasks_Nil
        exampleSandbox_fields Let_def)
qed

section \<open>The process exits\<close>

text \<open>
  Claim C8, as the code has it. When the child process emits \<open>close\<close>, the throttle, if
  there is one, is stopped, and the stream to the sandbox is ended unless it was already.
  The pending calls stay as they are and the channel from the sandbox is not marked
  closed; the only promises completed are those \<open>shutdown\<close> is waiting on. Pending calls
  are failed by the end or error of the stream from the sandbox alone.
\<close>

theorem exit_cleanup:
  "throttle (step (ChildClose code signal) st) = map_option Suc (throttle st)
   \<and> isWriteClosed (step (ChildClose code signal) st)
   \<and> ended (step (ChildClose code signal) st) =
       (if isWriteClosed st then ended st else Suc (ended st))
   \<and> pendingReads (step (ChildClose code signal) st) = pendingReads st
   \<and> isReadClosed (step (ChildClose code signal) st) = isReadClosed st
   \<and> settled (step (ChildClose code signal) st) =
       settled st @ map (\<lambda>p. (p, Resolve code)) (childListeners st)"
proof -
  have "same_core (handle (ChildClose code signal) st) (step (ChildClose code signal) st)"
    by (simp add: step_def same_core_runMicrotasks)
  then show ?thesis
    by (simp add: same_core_def settleAll_unchanged onExit_def close_alt log_def)
qed

theorem exit_cleanup_witness:
  "throttle (step (ChildClose (VNum 0) VNull) twoCalls) = Some 1
   \<and> isWriteClosed (step (ChildClose (VNum 0) VNull) twoCalls)
   \<and> ended (step (ChildClose (VNum 0) VNull) twoCalls) = 1
   \<and> isReadClosed (step (ChildClose (VNum 0) VNull) twoCalls) = False"
  using exit_cleanup [of "VNum 0" VNull twoCalls] by (simp add: twoCalls_fields)

text \<open>
  Claim C8 as stated fails: with two calls pending and the stream from the sandbox still
  open, the exit of the process leaves both calls pending and completes no promise.
\<close>

theorem exit_leaves_pending_calls:
  "pendingReads (step (ChildClose (VNum 0) VNull) twoCalls) = [0, 1]
   \<and> settled (step (ChildClose (VNum 0) VNull) twoCalls) = []"
proof -
  have "same_core (handle (ChildClose (VNum 0) VNull) twoCalls)
          (step (ChildClose (VNum 0) VNull) twoCalls)"
    by (simp add: step_def same_core_runMicrotasks)
  then show ?thesis
    by (simp add: same_core_def onExit_def close_alt log_def settleAll_Nil twoCalls_fields)
qed

section \<open>What every event keeps\<close>

lemma inv_rel: "rel st st' \<Longrightarrow> inv_all st \<Longrightarrow> inv_all st'"
  by (simp add: rel_def inv_all_def inv_fresh_def inv_reads_def inv_listeners_def inv_resume_def
        inv_close_def inv_timers_def live_def)

lemma resume_ids_append [simp]: "resume_ids (ms @ ms') = resume_ids ms @ resume_ids ms'"
  by (induction ms rule: resume_ids.induct) simp_all

declare map_of_append [simp del]

lemma map_of_snoc:
  "map_of (xs @ [(k, v)]) q = (if map_of xs q = None \<and> q = k then Some v else map_of xs q)"
  by (auto simp: map_of_append map_add_def split: option.splits)

lemma length_filter_mono:
  "(\<And>x. x \<in> set xs \<Longrightarrow> P x \<Longrightarrow> Q x) \<Longrightarrow> length (filter P xs) \<le> length (filter Q xs)"
  by (induction xs) auto

lemma count_zero_map_of: "count_list (map fst xs) k = 0 \<longleftrightarrow> map_of xs k = None"
  by (induction xs) (auto split: if_splits)

lemma inv_init: "inv_all (NSandbox h opts)"
  by (simp add: inv_all_def inv_fresh_def inv_reads_def inv_listeners_def inv_resume_def
        inv_close_def inv_timers_def NSandbox_def)

lemma inv_pyCall:
  assumes "inv_all st"
  shows "inv_all (snd (pyCall st f a))"
proof (cases "isReadClosed st")
  case True
  then show ?thesis using assms by (simp add: pyCall_alt)
next
  case False
  let ?p = "nextPromise st"
  from assms have fresh: "map_of (settled st) ?p = None" "map_of (awaiting st) ?p = None"
    "?p \<notin> set (pendingReads st)" "?p \<notin> fst ` set (returned st)"
    "?p \<notin> set (resume_ids (microtasks st))" "?p \<notin> set (childListeners st)"
    by (simp_all add: inv_all_def inv_fresh_def)
  have eq: "snd (pyCall st f a) =
     st\<lparr>recordedInput := (if recordBuffers st
                                then recordedInput st @ [(CALL, VArr (VStr f # a))]
                                else recordedInput st),
           written := (if ended st = 0 then written st @ [(CALL, VArr (VStr f # a))]
                       else written st),
           nextPromise := Suc ?p,
           pendingReads := pendingReads st @ [?p],
           awaiting := awaiting st @ [(?p, PyCallWait f)]\<rparr>"
    using False fresh by (simp add: pyCall_alt)
  have 1: "inv_fresh (snd (pyCall st f a))"
    using assms unfolding eq
    by (auto simp: inv_all_def inv_fresh_def map_of_snoc split: option.splits if_splits)
  have 2: "inv_reads (snd (pyCall st f a))"
    using assms fresh unfolding eq
    by (auto simp: inv_all_def inv_reads_def map_of_snoc count_zero_map_of split: option.splits if_splits)
  have 3: "inv_listeners (snd (pyCall st f a))"
    using assms fresh unfolding eq
    by (auto simp: inv_all_def inv_listeners_def map_of_snoc split: option.splits if_splits)
  have 4: "inv_resume (snd (pyCall st f a))"
    using assms fresh unfolding eq
    by (auto simp: inv_all_def inv_resume_def map_of_snoc split: option.splits if_splits)
  have 5: "inv_close (snd (pyCall st f a))"
    using assms unfolding eq by (simp add: inv_all_def inv_close_def)
  have l: "live (snd (pyCall st f a)) t = live st t" for t
    using fresh unfolding eq by (auto simp: live_def map_of_snoc)
  have 6: "inv_timers (snd (pyCall st f a))"
    using assms fresh unfolding inv_all_def inv_timers_def l
    unfolding eq by (auto simp: map_of_snoc)
  show ?thesis using 1 2 3 4 5 6 by (simp add: inv_all_def)
qed

lemma awaited_below: "inv_fresh st \<Longrightarrow> map_of (awaiting st) p = Some a \<Longrightarrow> p < nextPromise st"
  by (metis inv_fresh_def not_le option.distinct(1))

lemma count_map_fst_snoc:
  "count_list (map fst (xs @ [(p, out)])) q = count_list (map fst xs) q + (if q = p then 1 else 0)"
  by simp

lemma inv_settle_read:
  assumes "inv_all st" and aw: "map_of (awaiting st) p = Some (PyCallWait f)"
    and un: "map_of (settled st) p = None" and nr: "p \<notin> set (pendingReads st)"
  shows "inv_all (settle p out st)"
proof -
  have eq: "settle p out st =
      st\<lparr>settled := settled st @ [(p, out)], microtasks := microtasks st @ [Resume p]\<rparr>"
    using aw un by (simp add: settle_alt)
  from assms have below: "p < nextPromise st"
    by (auto simp: inv_all_def intro: awaited_below)
  have 1: "inv_fresh (settle p out st)"
    using assms below unfolding eq by (auto simp: inv_all_def inv_fresh_def map_of_snoc)
  have 2: "inv_reads (settle p out st)"
    using assms unfolding eq
    by (auto simp: inv_all_def inv_reads_def count_zero_map_of)
  have 3: "inv_listeners (settle p out st)"
    using assms unfolding eq by (simp add: inv_all_def inv_listeners_def)
  have 4: "inv_resume (settle p out st)"
    unfolding inv_resume_def
  proof
    fix q
    from assms have E: "count_list (resume_ids (microtasks st)) q
        + count_list (map fst (returned st)) q =
        (if map_of (settled st) q \<noteq> None \<and> map_of (awaiting st) q \<noteq> None then 1 else 0)"
      by (simp add: inv_all_def inv_resume_def)
    show "count_list (resume_ids (microtasks (settle p out st))) q
        + count_list (map fst (returned (settle p out st))) q =
        (if map_of (settled (settle p out st)) q \<noteq> None
            \<and> map_of (awaiting (settle p out st)) q \<noteq> None then 1 else 0)"
      using E aw un unfolding eq by (cases "q = p") (auto simp: map_of_snoc)
  qed
  have 5: "inv_close (settle p out st)"
    using assms unfolding eq by (simp add: inv_all_def inv_close_def)
  have l: "live (settle p out st) t = live st t" for t
    using aw un unfolding eq by (auto simp: live_def map_of_snoc)
  have 6: "inv_timers (settle p out st)"
    using assms unfolding inv_all_def inv_timers_def l
    unfolding eq by (auto simp: map_of_snoc)
  show ?thesis using 1 2 3 4 5 6 by (simp add: inv_all_def)
qed

lemma inv_settle_listener:
  assumes "inv_all st" and aw: "map_of (awaiting st) p = Some (ShutdownWait t)"
  shows "inv_all (settle p out st)"
proof -
  note eq = settle_alt [of p out st]
  from assms have below: "p < nextPromise st"
    by (auto simp: inv_all_def intro: awaited_below)
  have 1: "inv_fresh (settle p out st)"
    using assms below unfolding eq by (auto simp: inv_all_def inv_fresh_def map_of_snoc)
  have 2: "inv_reads (settle p out st)"
    using assms unfolding eq
    by (auto simp: inv_all_def inv_reads_def)
  have 3: "inv_listeners (settle p out st)"
    using assms unfolding eq by (simp add: inv_all_def inv_listeners_def)
  have 4: "inv_resume (settle p out st)"
    unfolding inv_resume_def
  proof
    fix q
    from assms have E: "count_list (resume_ids (microtasks st)) q
        + count_list (map fst (returned st)) q =
        (if map_of (settled st) q \<noteq> None \<and> map_of (awaiting st) q \<noteq> None then 1 else 0)"
      by (simp add: inv_all_def inv_resume_def)
    show "count_list (resume_ids (microtasks (settle p out st))) q
        + count_list (map fst (returned (settle p out st))) q =
        (if map_of (settled (settle p out st)) q \<noteq> None
            \<and> map_of (awaiting (settle p out st)) q \<noteq> None then 1 else 0)"
      using E aw unfolding eq by (cases "q = p") (auto simp: map_of_snoc)
  qed
  have 5: "inv_close (settle p out st)"
    using assms unfolding eq by (simp add: inv_all_def inv_close_def)
  have l: "live (settle p out st) t' \<Longrightarrow> live st t'" for t'
    unfolding eq by (auto simp: live_def map_of_snoc split: if_splits)
  have "length (filter (\<lambda>x. live (settle p out st) (fst x)) (timers st))
        \<le> length (filter (\<lambda>x. live st (fst x)) (timers st))"
    by (rule length_filter_mono) (rule l)
  moreover have "timers (settle p out st) = timers st" "kills (settle p out st) = kills st"
    by (simp_all add: eq)
  moreover have "\<forall>q t' v. map_of (awaiting (settle p out st)) q = Some (ShutdownWait t')
               \<and> map_of (settled (settle p out st)) q = Some (Resolve v)
               \<and> map_of (timers (settle p out st)) t' \<noteq> None
               \<longrightarrow> q \<in> set (resume_ids (microtasks (settle p out st)))"
    using assms unfolding eq inv_all_def inv_timers_def
    by (auto simp: map_of_snoc split: if_splits)
  ultimately have 6: "inv_timers (settle p out st)"
    using assms unfolding inv_all_def inv_timers_def by simp
  show ?thesis using 1 2 3 4 5 6 by (simp add: inv_all_def)
qed

lemma inv_drop_read:
  assumes "inv_all st" and "pendingReads st = p # rest"
  shows "inv_all (st\<lparr>pendingReads := rest\<rparr>)" and "p \<notin> set rest"
    and "map_of (settled st) p = None" and "\<exists>f. map_of (awaiting st) p = Some (PyCallWait f)"
proof -
  from assms obtain f where aw: "map_of (awaiting st) p = Some (PyCallWait f)"
    by (auto simp: inv_all_def inv_reads_def)
  then show "\<exists>f. map_of (awaiting st) p = Some (PyCallWait f)" by blast
  from assms aw have c: "count_list (map fst (settled st)) p + count_list (p # rest) p \<le> 1"
    by (auto simp: inv_all_def inv_reads_def)
  then show "map_of (settled st) p = None"
    by (simp add: count_zero_map_of [symmetric])
  from c have "count_list rest p = 0" by simp
  then show "p \<notin> set rest" by (simp add: count_list_0_iff)
  have 2: "inv_reads (st\<lparr>pendingReads := rest\<rparr>)"
    using assms unfolding inv_all_def inv_reads_def
    by (auto split: if_splits)
  have l: "live (st\<lparr>pendingReads := rest\<rparr>) t = live st t" for t
    by (simp add: live_def)
  show "inv_all (st\<lparr>pendingReads := rest\<rparr>)"
    using assms 2 unfolding inv_all_def inv_fresh_def inv_listeners_def inv_resume_def
      inv_close_def inv_timers_def l
    by auto
qed

lemma inv_closeStream: "inv_all st \<Longrightarrow> inv_all (close st)"
proof -
  assume a: "inv_all st"
  have l: "live (close st) t = live st t" for t
    by (simp add: live_def close_alt)
  show ?thesis
    using a unfolding inv_all_def inv_fresh_def inv_listeners_def inv_resume_def inv_reads_def
      inv_close_def inv_timers_def l
    by (auto simp: close_alt)
qed

lemma map_of_filter_None: "map_of xs k = None \<Longrightarrow> map_of (filter P xs) k = None"
  by (induction xs) (auto split: if_splits)

lemma map_of_filter_fst: "map_of (filter (\<lambda>x. fst x \<noteq> t) xs) k = (if k = t then None else map_of xs k)"
  by (induction xs) auto

lemma length_filter_filter: "length (filter P (filter Q xs)) \<le> length (filter P xs)"
  by (induction xs) auto

lemma in_set_map_of: "x \<in> set xs \<Longrightarrow> map_of xs (fst x) \<noteq> None"
  by (metis map_of_eq_None_iff image_eqI)

lemma inv_shutdown:
  assumes "inv_all st"
  shows "inv_all (snd (shutdown st))"
proof -
  let ?p = "nextPromise st" and ?t = "nextTimer st"
  from assms have fresh: "map_of (settled st) ?p = None" "map_of (awaiting st) ?p = None"
    "?p \<notin> set (pendingReads st)" "?p \<notin> fst ` set (returned st)"
    "?p \<notin> set (resume_ids (microtasks st))" "?p \<notin> set (childListeners st)"
    "map_of (timers st) ?t = None" "\<And>q. map_of (awaiting st) q \<noteq> Some (ShutdownWait ?t)"
    by (simp_all add: inv_all_def inv_fresh_def)
  note eq = shutdown_alt [OF fresh(1,2)]
  let ?st' = "snd (shutdown st)"
  have 1: "inv_fresh ?st'"
    using assms unfolding eq by (auto simp: inv_all_def inv_fresh_def map_of_snoc)
  have 2: "inv_reads ?st'"
    using assms fresh unfolding eq
    by (auto simp: inv_all_def inv_reads_def map_of_snoc)
  have 3: "inv_listeners ?st'"
    using assms fresh unfolding eq
    by (auto simp: inv_all_def inv_listeners_def map_of_snoc)
  have 4: "inv_resume ?st'"
    unfolding inv_resume_def
  proof
    fix q
    from assms have E: "count_list (resume_ids (microtasks st)) q
        + count_list (map fst (returned st)) q =
        (if map_of (settled st) q \<noteq> None \<and> map_of (awaiting st) q \<noteq> None then 1 else 0)"
      by (simp add: inv_all_def inv_resume_def)
    show "count_list (resume_ids (microtasks ?st')) q
        + count_list (map fst (returned ?st')) q =
        (if map_of (settled ?st') q \<noteq> None \<and> map_of (awaiting ?st') q \<noteq> None then 1 else 0)"
      using E fresh unfolding eq by (cases "q = ?p") (auto simp: map_of_snoc)
  qed
  have 5: "inv_close ?st'"
    using assms unfolding eq by (auto simp: inv_all_def inv_close_def)
  have old: "live ?st' t = live st t" if "t \<noteq> ?t" for t
    using that fresh unfolding eq by (auto simp: live_def map_of_snoc)
  have new: "\<not> live ?st' ?t" if "isWriteClosed st"
    using that fresh unfolding eq by (auto simp: live_def map_of_snoc)
  have ne: "fst x \<noteq> ?t" if "x \<in> set (timers st)" for x
    using that fresh(7) in_set_map_of by metis
  have f: "filter (\<lambda>x. live ?st' (fst x)) (timers st) = filter (\<lambda>x. live st (fst x)) (timers st)"
    by (rule filter_cong) (simp_all add: old ne)
  have t: "timers ?st' = timers st @ [(?t, 1000)]" "kills ?st' = kills st"
    by (simp_all add: eq)
  have G3: "kills ?st' + length (filter (\<lambda>x. live ?st' (fst x)) (timers ?st')) \<le> 1"
  proof (cases "isWriteClosed st")
    case True
    then show ?thesis
      using assms new unfolding t by (simp add: f inv_all_def inv_timers_def)
  next
    case False
    then have "timers st = []" "kills st = 0"
      using assms by (simp_all add: inv_all_def inv_close_def)
    then show ?thesis unfolding t by simp
  qed
  have G1: "\<forall>q t v. map_of (awaiting ?st') q = Some (ShutdownWait t)
               \<and> map_of (settled ?st') q = Some (Resolve v) \<and> map_of (timers ?st') t \<noteq> None
               \<longrightarrow> q \<in> set (resume_ids (microtasks ?st'))"
    using assms fresh unfolding eq inv_all_def inv_timers_def
    by (auto simp: map_of_snoc split: if_splits)
  have 6: "inv_timers ?st'"
    using G1 G3 unfolding inv_timers_def by blast
  show ?thesis using 1 2 3 4 5 6 by (simp add: inv_all_def)
qed

lemma all_live:
  assumes "inv_all st" and "resume_ids (microtasks st) = []"
  shows "filter (\<lambda>x. live st (fst x)) (timers st) = timers st"
proof -
  have "live st (fst x)" if "x \<in> set (timers st)" for x
    using assms that in_set_map_of [OF that]
    unfolding inv_all_def inv_timers_def live_def by fastforce
  then show ?thesis by simp
qed

lemma inv_timerFires:
  assumes "inv_all st" and rest: "resume_ids (microtasks st) = []"
  shows "inv_all (timerFires t st)"
proof (cases "map_of (timers st) t = None")
  case True
  then have "filter (\<lambda>x. fst x \<noteq> t) (timers st) = timers st"
    by (induction "timers st") (auto simp: filter_id_conv dest: in_set_map_of)
  then have "rel st (timerFires t st)"
    using True by (simp add: rel_def timerFires_alt)
  then show ?thesis using assms(1) by (rule inv_rel)
next
  case False
  let ?st' = "timerFires t st"
  note eq = timerFires_alt [of t st]
  from assms have "kills st + length (timers st) \<le> 1"
    using all_live [OF assms] by (simp add: inv_all_def inv_timers_def)
  moreover have "timers st \<noteq> []" using False by auto
  ultimately have k: "kills st = 0" and one: "length (timers st) = 1"
    by (cases "timers st"; simp)+
  then obtain x where x: "timers st = [x]"
    by (cases "timers st") auto
  with False have fx: "fst x = t" by (cases x) (auto split: if_splits)
  have t': "timers ?st' = []" "kills ?st' = 1"
    using False by (simp_all add: eq x fx k)
  have l: "live ?st' u = live st u" for u
    by (simp add: live_def eq)
  have wc: "isWriteClosed st"
    using assms(1) x by (auto simp: inv_all_def inv_close_def)
  have 6: "inv_timers ?st'"
    unfolding inv_timers_def t' by simp
  have 5: "inv_close ?st'"
    using assms(1) wc by (simp add: inv_all_def inv_close_def eq)
  have 1: "inv_fresh ?st'"
    using assms(1) by (simp add: inv_all_def inv_fresh_def eq map_of_filter_None)
  have "inv_reads ?st'" "inv_listeners ?st'" "inv_resume ?st'"
    using assms(1) by (simp_all add: inv_all_def inv_reads_def inv_listeners_def inv_resume_def eq)
  with 1 5 6 show ?thesis by (simp add: inv_all_def)
qed

lemma inv_resume_task:
  assumes "inv_all st" and m: "microtasks st = Resume p # ts"
  shows "inv_all (resume p (st\<lparr>microtasks := ts\<rparr>))"
proof -
  from assms have E: "count_list (resume_ids (microtasks st)) q
        + count_list (map fst (returned st)) q =
        (if map_of (settled st) q \<noteq> None \<and> map_of (awaiting st) q \<noteq> None then 1 else 0)" for q
    by (simp add: inv_all_def inv_resume_def)
  from E [of p] m obtain out a where so: "map_of (settled st) p = Some out"
    and aw: "map_of (awaiting st) p = Some a"
    and c0: "count_list (resume_ids ts) p = 0" "count_list (map fst (returned st)) p = 0"
    by (auto split: if_splits)
  let ?st' = "resume p (st\<lparr>microtasks := ts\<rparr>)"
  define tms where "tms = (case (a, out) of
                     (ShutdownWait t, Resolve v) \<Rightarrow> filter (\<lambda>x. fst x \<noteq> t) (timers st)
                   | _ \<Rightarrow> timers st)"
  have eq: "?st' = st\<lparr>microtasks := ts,
         logs := (case a of PyCallWait f \<Rightarrow>
                              if logTimes st then logs st @ [Sandbox_pyCall_took f] else logs st
                            | ShutdownWait t \<Rightarrow> logs st),
         timers := tms,
         returned := returned st @ [(p, out)]\<rparr>"
    using so aw by (cases a; cases out) (simp_all add: resume_alt tms_def)
  have tm: "map_of tms t = None" if "map_of (timers st) t = None" for t
    using that by (auto simp: tms_def map_of_filter_None split: awaiter.splits outcome.splits)
  have below: "p < nextPromise st"
    using assms(1) aw by (auto simp: inv_all_def intro: awaited_below)
  have 1: "inv_fresh ?st'"
    using assms(1) below m unfolding eq
    by (auto simp: inv_all_def inv_fresh_def tm)
  have 2: "inv_reads ?st'" "inv_listeners ?st'"
    using assms(1) unfolding eq by (simp_all add: inv_all_def inv_reads_def inv_listeners_def)
  have 4: "inv_resume ?st'"
    unfolding inv_resume_def
  proof
    fix q
    show "count_list (resume_ids (microtasks ?st')) q
        + count_list (map fst (returned ?st')) q =
        (if map_of (settled ?st') q \<noteq> None \<and> map_of (awaiting ?st') q \<noteq> None then 1 else 0)"
      using E [of q] m so aw c0 unfolding eq by (cases "q = p") auto
  qed
  have 5: "inv_close ?st'"
    using assms(1) unfolding eq
    by (auto simp: inv_all_def inv_close_def tms_def split: awaiter.splits outcome.splits)
  have l: "live ?st' u = live st u" for u
    by (simp add: live_def eq)
  have sub: "length (filter (\<lambda>x. live st (fst x)) tms)
        \<le> length (filter (\<lambda>x. live st (fst x)) (timers st))"
  proof (cases "\<exists>t v. a = ShutdownWait t \<and> out = Resolve v")
    case True
    then obtain t v where "a = ShutdownWait t" "out = Resolve v" by blast
    then have "tms = filter (\<lambda>x. fst x \<noteq> t) (timers st)" by (simp add: tms_def)
    then show ?thesis by (simp only: length_filter_filter)
  next
    case False
    then have "tms = timers st"
      by (auto simp: tms_def split: awaiter.splits outcome.splits)
    then show ?thesis by simp
  qed
  have G3: "kills ?st' + length (filter (\<lambda>x. live ?st' (fst x)) (timers ?st')) \<le> 1"
    using assms(1) sub unfolding l by (simp add: eq inv_all_def inv_timers_def)
  have G1: "q \<in> set (resume_ids (microtasks ?st'))"
    if "map_of (awaiting ?st') q = Some (ShutdownWait t)"
      "map_of (settled ?st') q = Some (Resolve v)" "map_of (timers ?st') t \<noteq> None" for q t v
  proof -
    from that have a: "map_of (awaiting st) q = Some (ShutdownWait t)"
      and s: "map_of (settled st) q = Some (Resolve v)" and tt: "map_of tms t \<noteq> None"
      by (simp_all add: eq)
    have tt': "map_of (timers st) t \<noteq> None"
    proof
      assume "map_of (timers st) t = None"
      then have "map_of tms t = None" by (rule tm)
      with tt show False by simp
    qed
    from assms(1) have "\<forall>p t v. map_of (awaiting st) p = Some (ShutdownWait t)
               \<and> map_of (settled st) p = Some (Resolve v) \<and> map_of (timers st) t \<noteq> None
               \<longrightarrow> p \<in> set (resume_ids (microtasks st))"
      by (simp add: inv_all_def inv_timers_def)
    then have "map_of (awaiting st) q = Some (ShutdownWait t)
               \<and> map_of (settled st) q = Some (Resolve v) \<and> map_of (timers st) t \<noteq> None
               \<longrightarrow> q \<in> set (resume_ids (microtasks st))"
      by (elim allE)
    with a s tt' have "q \<in> set (resume_ids (microtasks st))"
      by (simp only: simp_thms)
    moreover have "q \<noteq> p"
    proof
      assume "q = p"
      with a s so aw have "a = ShutdownWait t" "out = Resolve v" by simp_all
      with tt show False by (simp add: tms_def map_of_filter_fst)
    qed
    ultimately show ?thesis using m by (simp add: eq)
  qed
  have 6: "inv_timers ?st'"
    unfolding inv_timers_def using G1 G3 by blast
  show ?thesis using 1 2 4 5 6 by (simp add: inv_all_def)
qed

lemma settle_pendingReads_commute:
  "(settle p out st)\<lparr>pendingReads := x\<rparr> = settle p out (st\<lparr>pendingReads := x\<rparr>)"
  by (simp add: settle_alt)

lemma settleAll_pendingReads_commute:
  "(settleAll out ps st)\<lparr>pendingReads := x\<rparr> = settleAll out ps (st\<lparr>pendingReads := x\<rparr>)"
  by (induction ps arbitrary: st) (simp_all add: settleAll_Nil settleAll_Cons settle_pendingReads_commute)

lemma inv_settleAll_reads:
  assumes "inv_all st" and "distinct ps"
    and "\<forall>p \<in> set ps. map_of (settled st) p = None
           \<and> (\<exists>f. map_of (awaiting st) p = Some (PyCallWait f)) \<and> p \<notin> set (pendingReads st)"
  shows "inv_all (settleAll out ps st)"
  using assms
proof (induction ps arbitrary: st)
  case Nil
  then show ?case by (simp add: settleAll_Nil)
next
  case (Cons p ps)
  from Cons.prems obtain f where p: "map_of (settled st) p = None"
      "map_of (awaiting st) p = Some (PyCallWait f)" "p \<notin> set (pendingReads st)"
    by auto
  have i: "inv_all (settle p out st)"
    using Cons.prems(1) p(2,1,3) by (rule inv_settle_read)
  have "\<forall>q \<in> set ps. map_of (settled (settle p out st)) q = None
           \<and> (\<exists>f. map_of (awaiting (settle p out st)) q = Some (PyCallWait f))
           \<and> q \<notin> set (pendingReads (settle p out st))"
    using Cons.prems(2,3) by (auto simp: settle_alt map_of_snoc)
  then show ?case
    using Cons.IH [OF i] Cons.prems(2) by (simp add: settleAll_Cons)
qed

lemma inv_settleAll_listeners:
  assumes "inv_all st"
    and "\<forall>p \<in> set ps. \<exists>t. map_of (awaiting st) p = Some (ShutdownWait t)"
  shows "inv_all (settleAll out ps st)"
  using assms
proof (induction ps arbitrary: st)
  case Nil
  then show ?case by (simp add: settleAll_Nil)
next
  case (Cons p ps)
  from Cons.prems obtain t where p: "map_of (awaiting st) p = Some (ShutdownWait t)"
    by auto
  have i: "inv_all (settle p out st)"
    using Cons.prems(1) p by (rule inv_settle_listener)
  have "\<forall>q \<in> set ps. \<exists>t. map_of (awaiting (settle p out st)) q = Some (ShutdownWait t)"
    using Cons.prems(2) by (simp add: settle_alt)
  then show ?case
    using Cons.IH [OF i] by (simp add: settleAll_Cons)
qed

lemma inv_clear_reads: "inv_all st \<Longrightarrow> inv_all (st\<lparr>pendingReads := []\<rparr>)"
proof -
  assume a: "inv_all st"
  have l: "live (st\<lparr>pendingReads := []\<rparr>) t = live st t" for t
    by (simp add: live_def)
  have "inv_reads (st\<lparr>pendingReads := []\<rparr>)"
    using a unfolding inv_all_def inv_reads_def by auto
  then show ?thesis
    using a unfolding inv_all_def inv_fresh_def inv_listeners_def inv_resume_def
      inv_close_def inv_timers_def l
    by auto
qed

lemma count_le_1_distinct: "(\<And>x. x \<in> set xs \<Longrightarrow> count_list xs x \<le> 1) \<Longrightarrow> distinct xs"
proof (induction xs)
  case Nil
  then show ?case by simp
next
  case (Cons a xs)
  have "count_list (a # xs) a \<le> 1" using Cons.prems [of a] by simp
  then have "count_list xs a = 0" by simp
  then have a: "a \<notin> set xs" by (simp add: count_list_0_iff)
  have "count_list xs x \<le> 1" if "x \<in> set xs" for x
    using Cons.prems [of x] that by (simp split: if_splits)
  then have "distinct xs" by (rule Cons.IH)
  with a show ?case by simp
qed

lemma pending_reads_facts:
  assumes "inv_all st"
  shows "distinct (pendingReads st)"
    and "\<forall>p \<in> set (pendingReads st). map_of (settled st) p = None
           \<and> (\<exists>f. map_of (awaiting st) p = Some (PyCallWait f))"
proof -
  have c: "count_list (map fst (settled st)) p + count_list (pendingReads st) p \<le> 1"
    and f: "\<exists>f. map_of (awaiting st) p = Some (PyCallWait f)"
    if "p \<in> set (pendingReads st)" for p
    using assms that unfolding inv_all_def inv_reads_def by blast+
  show "distinct (pendingReads st)"
    by (rule count_le_1_distinct) (use c in force)
  show "\<forall>p \<in> set (pendingReads st). map_of (settled st) p = None
           \<and> (\<exists>f. map_of (awaiting st) p = Some (PyCallWait f))"
  proof
    fix p assume p: "p \<in> set (pendingReads st)"
    then have "0 < count_list (pendingReads st) p"
      by (metis count_list_0_iff gr0I)
    with c [OF p] have "count_list (map fst (settled st)) p = 0" by simp
    then show "map_of (settled st) p = None
           \<and> (\<exists>f. map_of (awaiting st) p = Some (PyCallWait f))"
      using f [OF p] by (simp add: count_zero_map_of)
  qed
qed

lemma inv_onSandboxClose:
  assumes "inv_all st"
  shows "inv_all (onSandboxClose st)"
proof -
  let ?st0 = "(stopThrottle st)\<lparr>isReadClosed := True\<rparr>"
  let ?st1 = "?st0\<lparr>pendingReads := []\<rparr>"
  have "rel (st\<lparr>pendingReads := []\<rparr>) ?st1"
    by (simp add: rel_def stopThrottle_alt)
  then have i: "inv_all ?st1"
    using inv_clear_reads [OF assms] inv_rel by blast
  have "\<forall>p \<in> set (pendingReads st). map_of (settled ?st1) p = None
           \<and> (\<exists>f. map_of (awaiting ?st1) p = Some (PyCallWait f))
           \<and> p \<notin> set (pendingReads ?st1)"
    using pending_reads_facts(2) [OF assms] by (simp add: stopThrottle_alt)
  then have "inv_all (settleAll (Reject (SandboxError (VStr (js ''PipeFromSandbox is closed''))))
      (pendingReads st) ?st1)"
    using i pending_reads_facts(1) [OF assms] inv_settleAll_reads by blast
  then show ?thesis
    by (simp add: onSandboxClose_settleAll settleAll_pendingReads_commute)
qed

lemma inv_onSandboxMsg:
  assumes "inv_all st"
  shows "inv_all (snd (onSandboxMsg st c d))"
proof (cases "throwing (c, d)")
  case True
  then show ?thesis using assms by (simp add: onSandboxMsg_throwing)
next
  case quiet: False
  show ?thesis
  proof (cases "c = CALL")
    case True
    then have "rel st (snd (onSandboxMsg st c d))"
      using quiet by (simp add: rel_def onSandboxMsg_alt)
    then show ?thesis using assms by (rule inv_rel)
  next
    case False
    show ?thesis
    proof (cases "pendingReads st")
      case Nil
      then show ?thesis using False assms by (simp add: onSandboxMsg_def)
    next
      case (Cons p rest)
      note d = inv_drop_read [OF assms Cons]
      from d(4) obtain f where f: "map_of (awaiting st) p = Some (PyCallWait f)" by blast
      have s: "inv_all (settle p out (st\<lparr>pendingReads := rest\<rparr>))" for out
        by (rule inv_settle_read [OF d(1), of p f]) (use d f in simp_all)
      have "rel (st\<lparr>pendingReads := rest\<rparr>) (log Sandbox_invalid_message (st\<lparr>pendingReads := rest\<rparr>))"
        by (simp add: rel_def log_def)
      then have l: "inv_all (log Sandbox_invalid_message (st\<lparr>pendingReads := rest\<rparr>))"
        using d(1) by (rule inv_rel)
      show ?thesis
        using False Cons s l by (simp add: onSandboxMsg_def Let_def)
    qed
  qed
qed

lemma inv_onSandboxData: "inv_all st \<Longrightarrow> inv_all (onSandboxData st vs)"
proof (induction vs arbitrary: st)
  case Nil
  then show ?case by simp
next
  case (Cons v vs)
  let ?st1 = "if recordBuffers st then st\<lparr>recordedOutput := recordedOutput st @ [v]\<rparr> else st"
  have "rel st ?st1" by (simp add: rel_def)
  then have 1: "inv_all ?st1" using Cons.prems by (rule inv_rel)
  have "rel ?st1 (?st1\<lparr>uncaught := u\<rparr>)" for u by (simp add: rel_def)
  then have 2: "inv_all (?st1\<lparr>uncaught := u\<rparr>)" for u using 1 inv_rel by blast
  show ?case
  proof (cases "frame v")
    case None
    then show ?thesis using 2 by (simp add: onSandboxData_Cons Let_def)
  next
    case (Some f)
    show ?thesis
    proof (cases "throwing f")
      case True
      then show ?thesis using 2 Some by (simp add: onSandboxData_Cons Let_def)
    next
      case False
      then show ?thesis
        using Some Cons.IH [OF inv_onSandboxMsg [OF 1, of "fst f" "snd f"]]
        by (simp add: onSandboxData_Cons Let_def)
    qed
  qed
qed

lemma listeners_await:
  "inv_all st \<Longrightarrow> \<forall>p \<in> set (childListeners st). \<exists>t. map_of (awaiting st) p = Some (ShutdownWait t)"
  by (simp add: inv_all_def inv_listeners_def)

lemma inv_handle:
  assumes "inv_all st" and "microtasks st = []"
  shows "inv_all (handle e st)"
proof (cases e)
  case (CallPy f a)
  then show ?thesis using assms(1) by (simp add: inv_pyCall)
next
  case CallShutdown
  then show ?thesis using assms(1) by (simp add: inv_shutdown)
next
  case (FromData vs)
  then show ?thesis using assms(1) by (simp add: inv_onSandboxData)
next
  case FromEnd
  then show ?thesis using assms(1) by (simp add: inv_onSandboxClose)
next
  case (FromError err)
  have "rel st (log (Sandbox_error_reading err) st)" by (simp add: rel_def log_def)
  then have "inv_all (log (Sandbox_error_reading err) st)" using assms(1) by (rule inv_rel)
  then show ?thesis using FromError by (simp add: inv_onSandboxClose)
next
  case (ToError err)
  have "rel st (log (Sandbox_error_writing err) st)" by (simp add: rel_def log_def)
  then have "inv_all (log (Sandbox_error_writing err) st)" using assms(1) by (rule inv_rel)
  then show ?thesis using ToError assms(1) by simp
next
  case (ChildExit c s)
  then show ?thesis
    using inv_settleAll_listeners [OF assms(1) listeners_await [OF assms(1)]] by simp
next
  case (ChildClose c s)
  have "rel (close st) (onExit st c s)" by (simp add: rel_def onExit_def log_def)
  then have i: "inv_all (onExit st c s)" using inv_closeStream [OF assms(1)] by (rule inv_rel)
  show ?thesis
    using ChildClose inv_settleAll_listeners [OF i listeners_await [OF i]] by (simp add: Let_def)
next
  case (ChildError err)
  have "rel (close st) (onError st err)" by (simp add: rel_def onError_def log_def)
  then have i: "inv_all (onError st err)" using inv_closeStream [OF assms(1)] by (rule inv_rel)
  show ?thesis
    using ChildError inv_settleAll_listeners [OF i listeners_await [OF i]] by (simp add: Let_def)
next
  case (TimerFires t)
  then show ?thesis using assms by (simp add: inv_timerFires)
next
  case (ExportSettles k r)
  have "rel st (enqueue (ExportRespond r) (st\<lparr>exportsRunning := remove1 k (exportsRunning st)\<rparr>))"
    by (simp add: rel_def enqueue_def)
  then have "inv_all (enqueue (ExportRespond r) (st\<lparr>exportsRunning := remove1 k (exportsRunning st)\<rparr>))"
    using assms(1) by (rule inv_rel)
  then show ?thesis using ExportSettles assms(1) by simp
qed

lemma inv_runTask:
  assumes "inv_all st" and "microtasks st = t # ts"
  shows "inv_all (runTask t (st\<lparr>microtasks := ts\<rparr>))"
proof (cases t)
  case (Resume p)
  then show ?thesis using assms by (simp add: inv_resume_task)
next
  case (ExportLookup fname xs)
  then have "rel st (runTask t (st\<lparr>microtasks := ts\<rparr>))"
    using assms(2)
    by (simp add: rel_def exportLookup_def enqueue_def
          split: property.splits method_result.splits option.splits)
  then show ?thesis using assms(1) by (rule inv_rel)
next
  case (ExportRespond r)
  then have "rel st (runTask t (st\<lparr>microtasks := ts\<rparr>))"
    using assms(2)
    by (simp add: rel_def exportRespond_alt Let_def split: sum.splits option.splits)
  then show ?thesis using assms(1) by (rule inv_rel)
next
  case (ExportCatch err)
  then have "rel st (runTask t (st\<lparr>microtasks := ts\<rparr>))"
    using assms(2) by (simp add: rel_def log_def)
  then show ?thesis using assms(1) by (rule inv_rel)
qed

lemma inv_runMicrotasks: "inv_all st \<Longrightarrow> inv_all (runMicrotasks st)"
proof (induction st rule: runMicrotasks.induct)
  case (1 st)
  show ?case
  proof (cases "microtasks st")
    case Nil
    then show ?thesis using "1.prems" by (simp add: runMicrotasks_Nil)
  next
    case (Cons t ts)
    then show ?thesis
      using "1.IH" [OF Cons inv_runTask [OF "1.prems" Cons]] by (simp add: runMicrotasks_Cons)
  qed
qed

lemma at_rest_step: "at_rest st \<Longrightarrow> at_rest (step e st)"
  by (simp add: at_rest_def step_def inv_handle inv_runMicrotasks microtasks_runMicrotasks)

lemma at_rest_run: "at_rest st \<Longrightarrow> at_rest (run es st)"
  by (induction es arbitrary: st) (simp_all add: at_rest_step)

lemma at_rest_init: "at_rest (NSandbox h opts)"
proof -
  have "microtasks (NSandbox h opts) = []" by (simp add: NSandbox_def)
  then show ?thesis by (simp add: at_rest_def inv_init)
qed

section \<open>Shutdown\<close>











lemma settleAll_unchanged2:
  "awaiting (settleAll out ps st) = awaiting st"
  "childListeners (settleAll out ps st) = childListeners st"
  "settled (settleAll out ps st) = settled st @ map (\<lambda>p. (p, out)) ps"
proof -
  obtain rs where eq: "settleAll out ps st =
     st\<lparr>settled := settled st @ map (\<lambda>p. (p, out)) ps,
        microtasks := microtasks st @ map Resume rs\<rparr>"
    using settleAll_shape by blast
  show "awaiting (settleAll out ps st) = awaiting st"
    "childListeners (settleAll out ps st) = childListeners st"
    "settled (settleAll out ps st) = settled st @ map (\<lambda>p. (p, out)) ps"
    by (simp_all add: eq)
qed

lemma at_rest_reachable: "at_rest (run es (NSandbox h opts))"
  by (simp add: at_rest_run at_rest_init)














section \<open>What is completed stays completed\<close>

lemma settleAll_nextPromise: "nextPromise (settleAll out ps st) = nextPromise st"
proof -
  obtain rs where eq: "settleAll out ps st =
     st\<lparr>settled := settled st @ map (\<lambda>p. (p, out)) ps,
        microtasks := microtasks st @ map Resume rs\<rparr>"
    using settleAll_shape by blast
  show ?thesis by (simp add: eq)
qed

lemma onSandboxMsg_history:
  "prefix (settled st) (settled (snd (onSandboxMsg st c d)))"
  "fst ` set (settled (snd (onSandboxMsg st c d))) \<subseteq> fst ` set (settled st) \<union> set (pendingReads st)"
  "set (pendingReads (snd (onSandboxMsg st c d))) \<subseteq> set (pendingReads st)"
  "awaiting (snd (onSandboxMsg st c d)) = awaiting st"
  "childListeners (snd (onSandboxMsg st c d)) = childListeners st"
  "nextPromise (snd (onSandboxMsg st c d)) = nextPromise st"
proof -
  show "prefix (settled st) (settled (snd (onSandboxMsg st c d)))"
    by (cases "throwing (c, d)") (simp_all add: onSandboxMsg_throwing onSandboxMsg_alt)
  show "fst ` set (settled (snd (onSandboxMsg st c d))) \<subseteq> fst ` set (settled st) \<union> set (pendingReads st)"
    by (cases "throwing (c, d)"; cases "pendingReads st")
       (auto simp: onSandboxMsg_throwing onSandboxMsg_alt completions_def completion_def
          split: if_splits)
  show "set (pendingReads (snd (onSandboxMsg st c d))) \<subseteq> set (pendingReads st)"
    by (cases "throwing (c, d)"; cases "pendingReads st")
       (auto simp: onSandboxMsg_throwing onSandboxMsg_alt)
  show "awaiting (snd (onSandboxMsg st c d)) = awaiting st"
    "childListeners (snd (onSandboxMsg st c d)) = childListeners st"
    "nextPromise (snd (onSandboxMsg st c d)) = nextPromise st"
    by (cases "throwing (c, d)"; simp add: onSandboxMsg_throwing onSandboxMsg_alt)+
qed

lemma onSandboxData_history:
  "prefix (settled st) (settled (onSandboxData st vs))
   \<and> fst ` set (settled (onSandboxData st vs)) \<subseteq> fst ` set (settled st) \<union> set (pendingReads st)
   \<and> set (pendingReads (onSandboxData st vs)) \<subseteq> set (pendingReads st)
   \<and> awaiting (onSandboxData st vs) = awaiting st
   \<and> childListeners (onSandboxData st vs) = childListeners st
   \<and> nextPromise (onSandboxData st vs) = nextPromise st"
proof (induction vs arbitrary: st)
  case Nil
  then show ?case by simp
next
  case (Cons v vs)
  define st1 where "st1 = (if recordBuffers st then st\<lparr>recordedOutput := recordedOutput st @ [v]\<rparr> else st)"
  have s1: "settled st1 = settled st" "pendingReads st1 = pendingReads st"
    "awaiting st1 = awaiting st" "childListeners st1 = childListeners st"
    "nextPromise st1 = nextPromise st" by (simp_all add: st1_def)
  have unfold: "onSandboxData st (v # vs) =
      (case frame v of
           None \<Rightarrow> st1\<lparr>uncaught := uncaught st1 @
                         [CannotRead (js ''0'')]\<rparr>
         | Some f \<Rightarrow>
             if throwing f
             then st1\<lparr>uncaught := uncaught st1 @ [TypeError cannot_convert_to_primitive]\<rparr>
             else onSandboxData (snd (onSandboxMsg st1 (fst f) (snd f))) vs)"
    unfolding st1_def by (simp only: onSandboxData_Cons Let_def)
  show ?case
  proof (cases "frame v")
    case None
    then show ?thesis unfolding unfold by (simp add: s1)
  next
    case (Some f)
    show ?thesis
    proof (cases "throwing f")
      case True
      then show ?thesis unfolding unfold using Some by (simp add: s1)
    next
      case False
      define st2 where "st2 = snd (onSandboxMsg st1 (fst f) (snd f))"
      have eq: "onSandboxData st (v # vs) = onSandboxData st2 vs"
        unfolding unfold st2_def using Some False by simp
      note h = onSandboxMsg_history [of st1 "fst f" "snd f", folded st2_def, unfolded s1]
      note IH = Cons.IH [of st2]
      from IH have i1: "prefix (settled st2) (settled (onSandboxData st2 vs))"
        and i2: "fst ` set (settled (onSandboxData st2 vs)) \<subseteq> fst ` set (settled st2) \<union> set (pendingReads st2)"
        and i3: "set (pendingReads (onSandboxData st2 vs)) \<subseteq> set (pendingReads st2)"
        and i4: "awaiting (onSandboxData st2 vs) = awaiting st2"
        and i5: "childListeners (onSandboxData st2 vs) = childListeners st2"
        and i6: "nextPromise (onSandboxData st2 vs) = nextPromise st2"
        by simp_all
      have a: "prefix (settled st) (settled (onSandboxData st2 vs))"
        using h(1) i1 by (rule prefix_order.trans)
      have b: "fst ` set (settled (onSandboxData st2 vs)) \<subseteq> fst ` set (settled st) \<union> set (pendingReads st)"
        using i2 h(2,3) by blast
      have c: "set (pendingReads (onSandboxData st2 vs)) \<subseteq> set (pendingReads st)"
        using i3 h(3) by blast
      show ?thesis
        unfolding eq using a b c i4 i5 i6 h(4,5,6) by simp
    qed
  qed
qed

lemma handle_history:
  shows "prefix (settled st) (settled (handle e st))"
    and "prefix (awaiting st) (awaiting (handle e st))"
    and "fst ` set (settled (handle e st)) \<subseteq>
           fst ` set (settled st) \<union> set (pendingReads st) \<union> set (childListeners st) \<union> {nextPromise st}"
    and "set (pendingReads (handle e st)) \<subseteq> set (pendingReads st) \<union> {nextPromise st}"
    and "set (childListeners (handle e st)) \<subseteq> set (childListeners st) \<union> {nextPromise st}"
    and "nextPromise st \<le> nextPromise (handle e st)"
proof -
  have "prefix (settled st) (settled (handle e st))
    \<and> prefix (awaiting st) (awaiting (handle e st))
    \<and> fst ` set (settled (handle e st)) \<subseteq>
           fst ` set (settled st) \<union> set (pendingReads st) \<union> set (childListeners st) \<union> {nextPromise st}
    \<and> set (pendingReads (handle e st)) \<subseteq> set (pendingReads st) \<union> {nextPromise st}
    \<and> set (childListeners (handle e st)) \<subseteq> set (childListeners st) \<union> {nextPromise st}
    \<and> nextPromise st \<le> nextPromise (handle e st)"
  proof (cases e)
    case (CallPy f a)
    then show ?thesis by (auto simp: pyCall_alt)
  next
    case CallShutdown
    then show ?thesis by (auto simp: shutdown_general)
  next
    case (FromData vs)
    then show ?thesis using onSandboxData_history [of st vs] by auto
  next
    case FromEnd
    obtain rs where "onSandboxClose st =
     st\<lparr>throttle := map_option Suc (throttle st), isReadClosed := True, pendingReads := [],
        settled := settled st @ map (\<lambda>p. (p, Reject (SandboxError (VStr (js ''PipeFromSandbox is closed''))))) (pendingReads st),
        microtasks := microtasks st @ map Resume rs\<rparr>"
      using onSandboxClose_shape by blast
    then show ?thesis using FromEnd by (auto simp: image_Un image_image)
  next
    case (FromError err)
    let ?st = "log (Sandbox_error_reading err) st"
    obtain rs where "onSandboxClose ?st =
     ?st\<lparr>throttle := map_option Suc (throttle ?st), isReadClosed := True, pendingReads := [],
        settled := settled ?st @ map (\<lambda>p. (p, Reject (SandboxError (VStr (js ''PipeFromSandbox is closed''))))) (pendingReads ?st),
        microtasks := microtasks ?st @ map Resume rs\<rparr>"
      using onSandboxClose_shape by blast
    then show ?thesis using FromError by (auto simp: image_Un image_image log_def)
  next
    case (ToError err)
    then show ?thesis by (auto simp: log_def)
  next
    case (ChildExit code signal)
    then show ?thesis
      by (auto simp: settleAll_unchanged2 settleAll_unchanged settleAll_nextPromise image_Un image_image)
  next
    case (ChildClose code signal)
    then show ?thesis
      by (auto simp: settleAll_unchanged2 settleAll_unchanged settleAll_nextPromise image_Un image_image
            onExit_def close_alt log_def Let_def)
  next
    case (ChildError err)
    then show ?thesis
      by (auto simp: settleAll_unchanged2 settleAll_unchanged settleAll_nextPromise image_Un image_image
            onError_def close_alt log_def Let_def)
  next
    case (TimerFires t)
    then show ?thesis by (auto simp: timerFires_alt)
  next
    case (ExportSettles k r)
    then show ?thesis by (auto simp: enqueue_def)
  qed
  then show "prefix (settled st) (settled (handle e st))"
    and "prefix (awaiting st) (awaiting (handle e st))"
    and "fst ` set (settled (handle e st)) \<subseteq>
           fst ` set (settled st) \<union> set (pendingReads st) \<union> set (childListeners st) \<union> {nextPromise st}"
    and "set (pendingReads (handle e st)) \<subseteq> set (pendingReads st) \<union> {nextPromise st}"
    and "set (childListeners (handle e st)) \<subseteq> set (childListeners st) \<union> {nextPromise st}"
    and "nextPromise st \<le> nextPromise (handle e st)"
    by blast+
qed

lemma step_history:
  shows "prefix (settled st) (settled (step e st))"
    and "prefix (awaiting st) (awaiting (step e st))"
    and "fst ` set (settled (step e st)) \<subseteq>
           fst ` set (settled st) \<union> set (pendingReads st) \<union> set (childListeners st) \<union> {nextPromise st}"
    and "set (pendingReads (step e st)) \<subseteq> set (pendingReads st) \<union> {nextPromise st}"
    and "set (childListeners (step e st)) \<subseteq> set (childListeners st) \<union> {nextPromise st}"
    and "nextPromise st \<le> nextPromise (step e st)"
proof -
  have core: "settled (step e st) = settled (handle e st)"
    "awaiting (step e st) = awaiting (handle e st)"
    "pendingReads (step e st) = pendingReads (handle e st)"
    "childListeners (step e st) = childListeners (handle e st)"
    "nextPromise (step e st) = nextPromise (handle e st)"
    using same_core_runMicrotasks [of "handle e st"] by (simp_all add: step_def same_core_def)
  show "prefix (settled st) (settled (step e st))"
    and "prefix (awaiting st) (awaiting (step e st))"
    and "fst ` set (settled (step e st)) \<subseteq>
           fst ` set (settled st) \<union> set (pendingReads st) \<union> set (childListeners st) \<union> {nextPromise st}"
    and "set (pendingReads (step e st)) \<subseteq> set (pendingReads st) \<union> {nextPromise st}"
    and "set (childListeners (step e st)) \<subseteq> set (childListeners st) \<union> {nextPromise st}"
    and "nextPromise st \<le> nextPromise (step e st)"
    unfolding core by (rule handle_history)+
qed

lemma run_history:
  "prefix (settled st) (settled (run es st))"
  "prefix (awaiting st) (awaiting (run es st))"
proof -
  have "prefix (settled st) (settled (run es st)) \<and> prefix (awaiting st) (awaiting (run es st))"
  proof (induction es arbitrary: st)
    case Nil
    then show ?case by simp
  next
    case (Cons e es)
    have 1: "prefix (settled st) (settled (step e st))"
      and 2: "prefix (awaiting st) (awaiting (step e st))"
      by (rule step_history)+
    from Cons.IH [of "step e st"]
    have 3: "prefix (settled (step e st)) (settled (run es (step e st)))"
      and 4: "prefix (awaiting (step e st)) (awaiting (run es (step e st)))"
      by simp_all
    have "prefix (settled st) (settled (run es (step e st)))"
      using 1 3 by (rule prefix_order.trans)
    moreover have "prefix (awaiting st) (awaiting (run es (step e st)))"
      using 2 4 by (rule prefix_order.trans)
    ultimately show ?case by simp
  qed
  then show "prefix (settled st) (settled (run es st))"
    "prefix (awaiting st) (awaiting (run es st))" by simp_all
qed

lemma orphan_step:
  assumes "orphan st p"
  shows "orphan (step e st) p"
proof -
  from assms have o: "p < nextPromise st" "p \<notin> set (pendingReads st)"
    "p \<notin> set (childListeners st)" "p \<notin> fst ` set (settled st)"
    by (simp_all add: orphan_def)
  have 3: "fst ` set (settled (step e st)) \<subseteq>
           fst ` set (settled st) \<union> set (pendingReads st) \<union> set (childListeners st) \<union> {nextPromise st}"
    and 4: "set (pendingReads (step e st)) \<subseteq> set (pendingReads st) \<union> {nextPromise st}"
    and 5: "set (childListeners (step e st)) \<subseteq> set (childListeners st) \<union> {nextPromise st}"
    and 6: "nextPromise st \<le> nextPromise (step e st)"
    by (rule step_history)+
  have a: "p < nextPromise (step e st)" using o(1) 6 by simp
  have b: "p \<notin> set (pendingReads (step e st))" using o(1,2) 4 by auto
  have c: "p \<notin> set (childListeners (step e st))" using o(1,3) 5 by auto
  have d: "p \<notin> fst ` set (settled (step e st))"
  proof
    assume "p \<in> fst ` set (settled (step e st))"
    then have "p \<in> fst ` set (settled st) \<union> set (pendingReads st) \<union> set (childListeners st) \<union> {nextPromise st}"
      using 3 by (rule rev_subsetD)
    then show False using o by simp
  qed
  show ?thesis using a b c d by (simp add: orphan_def)
qed

lemma orphan_run: "orphan st p \<Longrightarrow> orphan (run es st) p"
  by (induction es arbitrary: st) (simp_all add: orphan_step)

lemma map_of_prefix: "prefix xs ys \<Longrightarrow> map_of xs k = Some v \<Longrightarrow> map_of ys k = Some v"
  by (auto simp: prefix_def map_of_append)

lemma count_prefix:
  "prefix xs ys \<Longrightarrow> count_list (map fst xs) p \<le> count_list (map fst ys) p"
  by (auto simp: prefix_def)

lemma step_response:
  assumes "msgCode \<noteq> CALL"
  shows "pendingReads (step (FromData [VArr [msgCode, data]]) st) = tl (pendingReads st)"
    and "settled (step (FromData [VArr [msgCode, data]]) st) =
           settled st @ completions (pendingReads st) [(msgCode, data)]"
    and "childListeners (step (FromData [VArr [msgCode, data]]) st) = childListeners st"
    and "nextPromise (step (FromData [VArr [msgCode, data]]) st) = nextPromise st"
proof -
  have frames: "map frame [VArr [msgCode, data]] = map Some [(msgCode, data)]" by simp
  have quiet: "\<forall>f \<in> set [(msgCode, data)]. \<not> throwing f" using assms by simp
  have r: "responses [(msgCode, data)] = [(msgCode, data)]"
    using assms by (simp add: responses_def)
  show "pendingReads (step (FromData [VArr [msgCode, data]]) st) = tl (pendingReads st)"
    and "settled (step (FromData [VArr [msgCode, data]]) st) =
           settled st @ completions (pendingReads st) [(msgCode, data)]"
    using step_FromData_frames [OF frames quiet, of st] by (simp_all add: r drop_Suc)
  have core: "childListeners (step (FromData [VArr [msgCode, data]]) st) =
        childListeners (onSandboxData st [VArr [msgCode, data]])"
    "nextPromise (step (FromData [VArr [msgCode, data]]) st) =
        nextPromise (onSandboxData st [VArr [msgCode, data]])"
    using same_core_runMicrotasks [of "handle (FromData [VArr [msgCode, data]]) st"]
    by (simp_all add: step_def same_core_def)
  show "childListeners (step (FromData [VArr [msgCode, data]]) st) = childListeners st"
    and "nextPromise (step (FromData [VArr [msgCode, data]]) st) = nextPromise st"
    unfolding core using onSandboxData_history [of st "[VArr [msgCode, data]]"] by simp_all
qed

text \<open>A pending call that a frame with the code DATA or EXC meets is completed by it and
  never again.\<close>

lemma completed_once:
  assumes "st = run es (NSandbox h opts)" and "pendingReads st = p # rest"
    and "msgCode = DATA \<or> msgCode = EXC"
  shows "count_list (map fst (settled (run later (step (FromData [VArr [msgCode, data]]) st)))) p = 1"
proof -
  let ?e = "FromData [VArr [msgCode, data]]"
  have c: "msgCode \<noteq> CALL" using assms(3) by auto
  have i: "inv_all st" using assms(1) at_rest_reachable by (simp add: at_rest_def)
  note d = inv_drop_read [OF i assms(2)]
  from d(4) obtain f where f: "map_of (awaiting st) p = Some (PyCallWait f)" by blast
  have "count_list (map fst (settled st)) p = 0"
    using d(3) by (simp add: count_zero_map_of)
  moreover have "\<exists>out. completions (p # rest) [(msgCode, data)] = [(p, out)]"
    using assms(3) by (auto simp: completions_def completion_def)
  ultimately have one: "count_list (map fst (settled (step ?e st))) p = 1"
    using step_response(2) [OF c, where data = data and st = st] assms(2) by auto
  have reach: "run later (step ?e st) = run (es @ [?e] @ later) (NSandbox h opts)"
    by (simp add: assms(1) run_append)
  have "inv_reads (run later (step ?e st))"
    unfolding reach using at_rest_reachable [of "es @ [?e] @ later" h opts]
    by (simp add: at_rest_def inv_all_def)
  moreover have "map_of (awaiting (run later (step ?e st))) p = Some (PyCallWait f)"
  proof -
    have "prefix (awaiting st) (awaiting (step ?e st))" by (rule step_history)
    then have "map_of (awaiting (step ?e st)) p = Some (PyCallWait f)"
      using f by (rule map_of_prefix)
    moreover have "prefix (awaiting (step ?e st)) (awaiting (run later (step ?e st)))"
      by (rule run_history)
    ultimately show ?thesis by (rule map_of_prefix [rotated])
  qed
  ultimately have "count_list (map fst (settled (run later (step ?e st)))) p
      + count_list (pendingReads (run later (step ?e st))) p \<le> 1"
    unfolding inv_reads_def by blast
  moreover have "count_list (map fst (settled (step ?e st))) p
      \<le> count_list (map fst (settled (run later (step ?e st)))) p"
    using run_history(1) [where st = "step ?e st" and es = later] by (rule count_prefix)
  ultimately show ?thesis using one by simp
qed

text \<open>A pending call that a frame with another code meets is removed and is never
  completed.\<close>

lemma dropped_forever:
  assumes "st = run es (NSandbox h opts)" and "pendingReads st = p # rest"
    and "msgCode \<noteq> CALL" and "msgCode \<noteq> DATA" and "msgCode \<noteq> EXC"
  shows "p \<notin> fst ` set (settled (run later (step (FromData [VArr [msgCode, data]]) st)))"
proof -
  let ?e = "FromData [VArr [msgCode, data]]"
  have i: "inv_all st" using assms(1) at_rest_reachable by (simp add: at_rest_def)
  note d = inv_drop_read [OF i assms(2)]
  from d(4) obtain f where f: "map_of (awaiting st) p = Some (PyCallWait f)" by blast
  have fresh: "p < nextPromise st"
  proof (rule ccontr)
    assume "\<not> p < nextPromise st"
    then have "p \<notin> set (pendingReads st)"
      using i by (simp add: inv_all_def inv_fresh_def)
    then show False using assms(2) by simp
  qed
  have nl: "p \<notin> set (childListeners st)"
    using i f by (auto simp: inv_all_def inv_listeners_def)
  have ns: "p \<notin> fst ` set (settled st)"
    using d(3) by (simp add: map_of_eq_None_iff)
  have "completions (p # rest) [(msgCode, data)] = []"
    using assms(4,5) by (simp add: completions_def completion_def)
  then have "orphan (step ?e st) p"
    using step_response [OF assms(3), where data = data and st = st] assms(2) fresh nl ns d(2)
    by (simp add: orphan_def)
  then have "orphan (run later (step ?e st)) p" by (rule orphan_run)
  then show ?thesis by (simp add: orphan_def)
qed

section \<open>Responses\<close>

lemma twoCalls_reachable:
  "twoCalls = run [CallPy (js ''add'') [VNum 2, VNum 3], CallPy (js ''boom'') []]
                (NSandbox exampleHost (createOptions exampleHost pynbox noOptions))"
  unfolding twoCalls_def exampleSandbox_def create_def Let_def by (simp only: snd_conv)

lemma step_FromEnd_settled:
  "settled (step FromEnd st) = settled st @
     map (\<lambda>p. (p, Reject (SandboxError (VStr (js ''PipeFromSandbox is closed''))))) (pendingReads st)"
  using same_core_runMicrotasks [of "handle FromEnd st"] onSandboxClose_effect(3) [of st]
  by (simp add: step_def same_core_def)

text \<open>
  Claim C2, as the code has it. A frame that is not a call never throws. Met by no
  pending call, it changes nothing. Met by pending calls, it removes the oldest, and calls
  that call's \<open>resolve\<close> with the payload when the code is DATA, its \<open>reject\<close> with a
  SandboxError of the payload when the code is EXC, and neither when the code is anything
  else: then the warning "Sandbox invalid message from sandbox" is logged. Nothing is
  written. In every state a controller can reach the pending calls are distinct and none is
  completed yet. Whatever happens to the controller afterwards, the call that a DATA or
  EXC frame met stays completed exactly once, and the call that a frame with another code
  met is never completed: it was removed for nothing. No promise of a \<open>pyCall\<close> is ever
  completed twice.
\<close>

theorem response_dispatch:
  assumes "msgCode \<noteq> CALL"
  shows "fst (onSandboxMsg st msgCode data) = None
     \<and> (pendingReads st = [] \<longrightarrow> snd (onSandboxMsg st msgCode data) = st)
     \<and> (pendingReads st \<noteq> [] \<longrightarrow>
           pendingReads (snd (onSandboxMsg st msgCode data)) = tl (pendingReads st)
         \<and> settled (snd (onSandboxMsg st msgCode data)) =
             settled st @
               (if msgCode = DATA then [(hd (pendingReads st), Resolve data)]
                else if msgCode = EXC then [(hd (pendingReads st), Reject (SandboxError data))]
                else [])
         \<and> logs (snd (onSandboxMsg st msgCode data)) =
             logs st @ (if msgCode = DATA \<or> msgCode = EXC then [] else [Sandbox_invalid_message])
         \<and> written (snd (onSandboxMsg st msgCode data)) = written st
         \<and> uncaught (snd (onSandboxMsg st msgCode data)) = uncaught st)
     \<and> (\<forall>es h opts. st = run es (NSandbox h opts) \<longrightarrow>
           distinct (pendingReads st)
         \<and> (\<forall>p \<in> set (pendingReads st). p \<notin> fst ` set (settled st)))
     \<and> (\<forall>es h opts later. st = run es (NSandbox h opts) \<and> pendingReads st \<noteq> [] \<longrightarrow>
           (if msgCode = DATA \<or> msgCode = EXC
            then count_list (map fst (settled
                   (run later (step (FromData [VArr [msgCode, data]]) st))))
                   (hd (pendingReads st)) = 1
            else hd (pendingReads st) \<notin> fst ` set (settled
                   (run later (step (FromData [VArr [msgCode, data]]) st)))))
     \<and> (\<forall>es h opts p f.
           map_of (awaiting (run es (NSandbox h opts))) p = Some (PyCallWait f) \<longrightarrow>
           count_list (map fst (settled (run es (NSandbox h opts)))) p \<le> 1)"
proof -
  have 0: "fst (onSandboxMsg st msgCode data) = None"
    using assms by (simp add: fst_onSandboxMsg)
  have 1: "pendingReads st = [] \<longrightarrow> snd (onSandboxMsg st msgCode data) = st"
    using assms by (simp add: onSandboxMsg_def)
  have 2: "pendingReads (snd (onSandboxMsg st msgCode data)) = tl (pendingReads st)
         \<and> settled (snd (onSandboxMsg st msgCode data)) =
             settled st @
               (if msgCode = DATA then [(hd (pendingReads st), Resolve data)]
                else if msgCode = EXC then [(hd (pendingReads st), Reject (SandboxError data))]
                else [])
         \<and> logs (snd (onSandboxMsg st msgCode data)) =
             logs st @ (if msgCode = DATA \<or> msgCode = EXC then [] else [Sandbox_invalid_message])
         \<and> written (snd (onSandboxMsg st msgCode data)) = written st
         \<and> uncaught (snd (onSandboxMsg st msgCode data)) = uncaught st"
    if "pendingReads st \<noteq> []"
    using assms that
    by (cases "pendingReads st")
       (auto simp: onSandboxMsg_alt completions_def completion_def)
  have 3: "distinct (pendingReads st) \<and> (\<forall>p \<in> set (pendingReads st). p \<notin> fst ` set (settled st))"
    if "st = run es (NSandbox h opts)" for es h opts
  proof -
    have "inv_all st" using that at_rest_reachable by (simp add: at_rest_def)
    from pending_reads_facts [OF this] show ?thesis
      by (simp add: map_of_eq_None_iff)
  qed
  have 4: "if msgCode = DATA \<or> msgCode = EXC
            then count_list (map fst (settled
                   (run later (step (FromData [VArr [msgCode, data]]) st))))
                   (hd (pendingReads st)) = 1
            else hd (pendingReads st) \<notin> fst ` set (settled
                   (run later (step (FromData [VArr [msgCode, data]]) st)))"
    if "st = run es (NSandbox h opts)" and "pendingReads st \<noteq> []" for es h opts later
  proof -
    from that(2) obtain p rest where p: "pendingReads st = p # rest"
      by (cases "pendingReads st") auto
    show ?thesis
    proof (cases "msgCode = DATA \<or> msgCode = EXC")
      case True
      then show ?thesis
        using completed_once [OF that(1) p True, of later data] by (simp add: p)
    next
      case False
      then have "msgCode \<noteq> DATA" "msgCode \<noteq> EXC" by simp_all
      then show ?thesis
        using dropped_forever [OF that(1) p assms, of later data] False by (simp add: p)
    qed
  qed
  have 5: "count_list (map fst (settled (run es (NSandbox h opts)))) p \<le> 1"
    if "map_of (awaiting (run es (NSandbox h opts))) p = Some (PyCallWait f)" for es h opts p f
  proof -
    have "inv_reads (run es (NSandbox h opts))"
      using at_rest_reachable [of es h opts] by (simp add: at_rest_def inv_all_def)
    with that have "count_list (map fst (settled (run es (NSandbox h opts)))) p
        + count_list (pendingReads (run es (NSandbox h opts))) p \<le> 1"
      unfolding inv_reads_def by blast
    then show ?thesis by simp
  qed
  show ?thesis using 0 1 2 3 4 5 by blast
qed

theorem response_dispatch_witness:
  "DATA \<noteq> CALL \<and> VNum 7 \<noteq> CALL
   \<and> snd (onSandboxMsg exampleSandbox DATA (VNum 5)) = exampleSandbox
   \<and> pendingReads (snd (onSandboxMsg twoCalls DATA (VNum 5))) = [1]
   \<and> settled (snd (onSandboxMsg twoCalls DATA (VNum 5))) = [(0, Resolve (VNum 5))]
   \<and> pendingReads (snd (onSandboxMsg twoCalls (VNum 7) (VNum 5))) = [1]
   \<and> settled (snd (onSandboxMsg twoCalls (VNum 7) (VNum 5))) = []
   \<and> count_list (map fst (settled
        (run [FromEnd] (step (FromData [VArr [DATA, VNum 5]]) twoCalls)))) 0 = 1
   \<and> 0 \<notin> fst ` set (settled
        (run [FromEnd] (step (FromData [VArr [VNum 7, VNum 5]]) twoCalls)))"
proof -
  have a: "DATA \<noteq> CALL" by simp
  have b: "VNum 7 \<noteq> CALL" by (simp add: CALL_def)
  have c: "VNum 7 \<noteq> DATA" "VNum 7 \<noteq> EXC" by (simp_all add: DATA_def EXC_def)
  have pending: "pendingReads twoCalls \<noteq> []" by (simp add: twoCalls_fields)
  note idle = response_dispatch [OF a, of exampleSandbox "VNum 5"]
  note good = response_dispatch [OF a, of twoCalls "VNum 5"]
  note bad = response_dispatch [OF b, of twoCalls "VNum 5"]
  have once: "count_list (map fst (settled
        (run [FromEnd] (step (FromData [VArr [DATA, VNum 5]]) twoCalls)))) 0 = 1"
    using good [THEN conjunct2, THEN conjunct2, THEN conjunct2, THEN conjunct2, THEN conjunct1,
        rule_format, of _ exampleHost "createOptions exampleHost pynbox noOptions" "[FromEnd]",
        OF conjI [OF twoCalls_reachable pending]]
    by (simp add: twoCalls_fields)
  have never: "0 \<notin> fst ` set (settled
        (run [FromEnd] (step (FromData [VArr [VNum 7, VNum 5]]) twoCalls)))"
    using bad [THEN conjunct2, THEN conjunct2, THEN conjunct2, THEN conjunct2, THEN conjunct1,
        rule_format, of _ exampleHost "createOptions exampleHost pynbox noOptions" "[FromEnd]",
        OF conjI [OF twoCalls_reachable pending]]
    by (simp add: twoCalls_fields c)
  have now: "snd (onSandboxMsg exampleSandbox DATA (VNum 5)) = exampleSandbox"
    "pendingReads (snd (onSandboxMsg twoCalls DATA (VNum 5))) = [1]"
    "settled (snd (onSandboxMsg twoCalls DATA (VNum 5))) = [(0, Resolve (VNum 5))]"
    "pendingReads (snd (onSandboxMsg twoCalls (VNum 7) (VNum 5))) = [1]"
    "settled (snd (onSandboxMsg twoCalls (VNum 7) (VNum 5))) = []"
    using idle good bad by (simp_all add: exampleSandbox_fields twoCalls_fields c)
  show ?thesis
    using a b now once never by simp
qed

text \<open>
  Claim C2 as stated fails. Two calls are pending and a frame with the code 7 arrives:
  the oldest call is removed and is not completed, so the frame is not ignored. When the
  stream from the sandbox then ends, only the second call is failed with the closed-channel
  error; the promise of the first is left pending for good.
\<close>

theorem invalid_code_drops_call:
  "pendingReads (snd (onSandboxMsg twoCalls (VNum 7) (VNum 5))) = [1]
   \<and> settled (snd (onSandboxMsg twoCalls (VNum 7) (VNum 5))) = []
   \<and> settled (run [FromData [VArr [VNum 7, VNum 5]], FromEnd] twoCalls) =
       [(1, Reject (SandboxError (VStr (js ''PipeFromSandbox is closed''))))]"
proof -
  have b: "VNum 7 \<noteq> CALL" by (simp add: CALL_def)
  have c: "VNum 7 \<noteq> DATA" "VNum 7 \<noteq> EXC" by (simp_all add: DATA_def EXC_def)
  have 1: "pendingReads (snd (onSandboxMsg twoCalls (VNum 7) (VNum 5))) = [1]"
    "settled (snd (onSandboxMsg twoCalls (VNum 7) (VNum 5))) = []"
    using b by (simp_all add: onSandboxMsg_alt twoCalls_fields completions_def completion_def c)
  have 2: "pendingReads (step (FromData [VArr [VNum 7, VNum 5]]) twoCalls) = [1]"
    "settled (step (FromData [VArr [VNum 7, VNum 5]]) twoCalls) = []"
    using step_response(1,2) [OF b, where data = "VNum 5" and st = twoCalls]
    by (simp_all add: twoCalls_fields completions_def completion_def c)
  have 3: "settled (run [FromData [VArr [VNum 7, VNum 5]], FromEnd] twoCalls) =
       [(1, Reject (SandboxError (VStr (js ''PipeFromSandbox is closed''))))]"
    by (simp add: step_FromEnd_settled 2)
  show ?thesis using 1 3 by simp
qed

end
